theory Spec2Isabelle
  imports Complex_Main "HOL-Library.Multiset"
begin

section \<open>Data model\<close>

text \<open>
  The scheduler of \<^verbatim>\<open>threads/scheduler.cc\<close> works on heap objects through pointers:
  a ready list holds \<^verbatim>\<open>Thread *\<close> values, and the same thread object is read and written
  through every pointer to it. The model keeps that sharing: a thread pointer is an
  address, the thread objects live in a store \<open>threads\<close>, and the ready lists hold
  addresses.

  A C++ \<^verbatim>\<open>int\<close> (ticks, priorities) is an integer, and every \<^verbatim>\<open>int\<close> operation of
  the scheduler wraps its result to 32 bits (\<open>int32\<close>). A \<^verbatim>\<open>double\<close> (the burst
  estimate) is the real number it denotes, and every \<^verbatim>\<open>double\<close> operation rounds its
  result to binary64 (\<open>binary64\<close>).
\<close>

subsection \<open>Machine arithmetic\<close>

text \<open>
  The result of a 32-bit two's-complement \<^verbatim>\<open>int\<close> operation whose exact result is \<open>x\<close>:
  what the compiled code computes (signed overflow is undefined in C++; the machine
  wraps).
\<close>

definition int32 :: "int \<Rightarrow> int" where
  "int32 x = (x + 2147483648) mod 4294967296 - 2147483648"

definition is_int32 :: "int \<Rightarrow> bool" where
  "is_int32 x = (- 2147483648 \<le> x \<and> x < 2147483648)"

text \<open>
  The result of a binary64 operation whose exact result is \<open>x\<close>, in the default
  rounding mode (to nearest, ties to the even significand): \<open>x\<close> is rounded to a
  multiple of the unit in the last place of its binade, 53 significant bits, with the
  subnormal numbers at the bottom of the range. Overflow to infinity is not modelled: the
  scheduler adds a 32-bit tick count to a finite estimate and halves the sum, which
  cannot overflow. Nor is an implementation that keeps intermediate results in a wider
  format than binary64.
\<close>

definition round_half_even :: "real \<Rightarrow> int" where
  "round_half_even q =
     (let f = \<lfloor>q\<rfloor>
      in if q - of_int f < 1 / 2 then f
         else if q - of_int f > 1 / 2 then f + 1
         else if even f then f else f + 1)"

definition binary64_exponent :: "real \<Rightarrow> int" where
  "binary64_exponent x = max (- 1074) (\<lfloor>log 2 \<bar>x\<bar>\<rfloor> - 52)"

definition binary64 :: "real \<Rightarrow> real" where
  "binary64 x =
     (if x = 0 then 0
      else of_int (round_half_even (x / 2 powi binary64_exponent x))
             * 2 powi binary64_exponent x)"

type_synonym tid = nat

text \<open>
  Modelled from the spec: the declaration of class \<^verbatim>\<open>Thread\<close> (\<^verbatim>\<open>thread.h\<close>) is not part
  of the sources. The fields are the ones the scheduler reads and writes through the
  accessors it calls, with the statuses the data model of the spec lists.
\<close>

datatype ThreadStatus = NEW | READY | RUNNING | BLOCKED | FINISHED

record Thread =
  ID :: int
  status :: ThreadStatus
  priority :: int
  burstTime :: real
  startReadyTime :: int
  startBurst :: int
  space :: "nat option"
  stackOverflowed :: bool

datatype IntStatus = IntOff | IntOn

datatype error = AssertionFailed | NullPointer

text \<open>What the scheduler prints or hands to opaque collaborators, in order.\<close>

datatype event =
    TickThread int int
  | ProcessReady int int
  | ProcessRunning int int
  | SaveUserState tid
  | SaveState tid
  | SWITCH tid tid
  | DeleteThread tid
  | RestoreUserState tid
  | RestoreState tid

text \<open>
  The four scheduling constants are macros defined outside the sources; they are
  parameters of the model.
\<close>

record sched_consts =
  SJF_SCHD_THRESHHOLD :: int
  PRI_SCHD_THRESHHOLD :: int
  AGING_TICKS :: int
  PRIORITY_AGING :: int

text \<open>
  The scheduler object together with the parts of \<^verbatim>\<open>kernel\<close> it reads and writes:
  \<^verbatim>\<open>kernel->currentThread\<close>, \<^verbatim>\<open>kernel->stats->totalTicks\<close> and
  \<^verbatim>\<open>kernel->interrupt->getLevel()\<close>.
\<close>

record state =
  threads :: "tid \<Rightarrow> Thread"
  currentThread :: tid
  totalTicks :: int
  level :: IntStatus
  readyRRList :: "tid list"
  readyPriorityList :: "tid list"
  readySJFList :: "tid list"
  toBeDestroyed :: "tid option"
  console :: "event list"

datatype ready_list = RRList | PriorityList | SJFList

fun getList :: "ready_list \<Rightarrow> state \<Rightarrow> tid list" where
  "getList RRList s = readyRRList s"
| "getList PriorityList s = readyPriorityList s"
| "getList SJFList s = readySJFList s"

fun setList :: "ready_list \<Rightarrow> tid list \<Rightarrow> state \<Rightarrow> state" where
  "setList RRList xs s = s\<lparr>readyRRList := xs\<rparr>"
| "setList PriorityList xs s = s\<lparr>readyPriorityList := xs\<rparr>"
| "setList SJFList xs s = s\<lparr>readySJFList := xs\<rparr>"

subsection \<open>Thread accessors\<close>

definition setStatus :: "tid \<Rightarrow> ThreadStatus \<Rightarrow> state \<Rightarrow> state" where
  "setStatus t st s = s\<lparr>threads := (threads s)(t := (threads s t)\<lparr>status := st\<rparr>)\<rparr>"

definition setStartReadyTime :: "tid \<Rightarrow> int \<Rightarrow> state \<Rightarrow> state" where
  "setStartReadyTime t n s =
     s\<lparr>threads := (threads s)(t := (threads s t)\<lparr>startReadyTime := n\<rparr>)\<rparr>"

definition setPriority :: "tid \<Rightarrow> int \<Rightarrow> state \<Rightarrow> state" where
  "setPriority t p s = s\<lparr>threads := (threads s)(t := (threads s t)\<lparr>priority := p\<rparr>)\<rparr>"

definition setBurstTime :: "tid \<Rightarrow> real \<Rightarrow> state \<Rightarrow> state" where
  "setBurstTime t b s = s\<lparr>threads := (threads s)(t := (threads s t)\<lparr>burstTime := b\<rparr>)\<rparr>"

definition setStartBurstTime :: "tid \<Rightarrow> int \<Rightarrow> state \<Rightarrow> state" where
  "setStartBurstTime t n s =
     s\<lparr>threads := (threads s)(t := (threads s t)\<lparr>startBurst := n\<rparr>)\<rparr>"

definition cout :: "event \<Rightarrow> state \<Rightarrow> state" where
  "cout e s = s\<lparr>console := console s @ [e]\<rparr>"

subsection \<open>The list library\<close>

text \<open>
  The classes \<^verbatim>\<open>List\<close>, \<^verbatim>\<open>SortedList\<close> and \<^verbatim>\<open>ListIterator\<close> (\<^verbatim>\<open>lib/list.h\<close>) and
  the comparison functions of \<^verbatim>\<open>Thread\<close> are not part of the sources. Each definition
  of this subsection is modelled from what the spec says the scheduler relies on. A
  queue is the list of the thread pointers it holds, front first.
\<close>

text \<open>
  Modelled from the spec: \<^verbatim>\<open>List::Append\<close> is missing; the Round-Robin queue is
  insertion-ordered (FIFO), so a thread is appended at the back.
\<close>

definition List_Append :: "tid \<Rightarrow> tid list \<Rightarrow> tid list" where
  "List_Append item xs = xs @ [item]"

text \<open>
  Modelled from the spec: \<^verbatim>\<open>SortedList::Insert\<close> is missing; a sorted queue keeps the
  order of its comparison function, ties in a stable order: the item goes in front of
  the first element it compares smaller than.
\<close>

fun SortedList_Insert :: "(tid \<Rightarrow> tid \<Rightarrow> int) \<Rightarrow> tid \<Rightarrow> tid list \<Rightarrow> tid list" where
  "SortedList_Insert compare item [] = [item]"
| "SortedList_Insert compare item (x # xs) =
     (if compare item x < 0 then item # x # xs
      else x # SortedList_Insert compare item xs)"

text \<open>
  Modelled from the spec: \<^verbatim>\<open>SortedList::Append\<close> is missing; \<^verbatim>\<open>ReadyToRun\<close> admits to
  the SJF and Priority queues with it, and the spec has these queues ordered, so
  appending to a sorted list is the sorted insertion.
\<close>

definition SortedList_Append :: "(tid \<Rightarrow> tid \<Rightarrow> int) \<Rightarrow> tid \<Rightarrow> tid list \<Rightarrow> tid list" where
  "SortedList_Append compare item xs = SortedList_Insert compare item xs"

text \<open>
  Modelled from the spec: \<^verbatim>\<open>List::Remove\<close> is missing; it takes the thread out of the
  queue (one reference to it, the first).
\<close>

definition List_Remove :: "tid \<Rightarrow> tid list \<Rightarrow> tid list" where
  "List_Remove item xs = remove1 item xs"

text \<open>Modelled from the spec: \<^verbatim>\<open>List::IsEmpty\<close> is missing.\<close>

definition IsEmpty :: "tid list \<Rightarrow> bool" where
  "IsEmpty xs = (xs = [])"

text \<open>
  Modelled from the spec: \<^verbatim>\<open>Thread::compare_by_priority\<close> is missing; the Priority
  queue is ordered by descending priority.
\<close>

definition compare_by_priority :: "Thread \<Rightarrow> Thread \<Rightarrow> int" where
  "compare_by_priority x y =
     (if priority x > priority y then - 1 else if priority x < priority y then 1 else 0)"

text \<open>
  Modelled from the spec: \<^verbatim>\<open>Thread::compare_by_burst\<close> is missing; the SJF queue is
  ordered by ascending burst estimate.
\<close>

definition compare_by_burst :: "Thread \<Rightarrow> Thread \<Rightarrow> int" where
  "compare_by_burst x y =
     (if burstTime x < burstTime y then - 1 else if burstTime x > burstTime y then 1 else 0)"

text \<open>
  The comparison a list was constructed with (\<^verbatim>\<open>Scheduler::Scheduler\<close>), on the current
  thread objects. The Round-Robin list is a plain \<^verbatim>\<open>List\<close> and has none.
\<close>

fun compare_of :: "ready_list \<Rightarrow> state \<Rightarrow> tid \<Rightarrow> tid \<Rightarrow> int" where
  "compare_of PriorityList s x y = compare_by_priority (threads s x) (threads s y)"
| "compare_of SJFList s x y = compare_by_burst (threads s x) (threads s y)"
| "compare_of RRList s x y = 0"

text \<open>
  Modelled from the spec: \<^verbatim>\<open>ListIterator\<close> is missing; an iteration walks a stable
  snapshot of the queue's membership at the moment the iterator is constructed, not the
  live structure. The loops below therefore recurse over the list value the queue had
  when its iterator was made, while removals and insertions act on the queue itself.
\<close>

section \<open>The scheduler\<close>

subsection \<open>\<^verbatim>\<open>Scheduler::Scheduler\<close>\<close>

text \<open>
  The constructor creates the three lists empty and clears the \<open>toBeDestroyed\<close> slot;
  the rest of the state is the kernel's.
\<close>

definition Scheduler_new :: "state \<Rightarrow> state" where
  "Scheduler_new s =
     s\<lparr>readyRRList := [], readyPriorityList := [], readySJFList := [], toBeDestroyed := None\<rparr>"

subsection \<open>\<^verbatim>\<open>Scheduler::ReadyToRun\<close>\<close>

definition ReadyToRun :: "sched_consts \<Rightarrow> tid \<Rightarrow> state \<Rightarrow> error + state" where
  "ReadyToRun c thread s =
     (if level s \<noteq> IntOff then Inl AssertionFailed
      else
        let s1 = setStatus thread READY s;
            s2 = setStartReadyTime thread (totalTicks s1) s1;
            s3 = cout (TickThread (totalTicks s2) (ID (threads s2 thread))) s2;
            pri = priority (threads s3 thread);
            s4 = (if pri \<ge> SJF_SCHD_THRESHHOLD c then
                    s3\<lparr>readySJFList :=
                         SortedList_Append (compare_of SJFList s3) thread (readySJFList s3)\<rparr>
                  else if pri \<ge> PRI_SCHD_THRESHHOLD c then
                    s3\<lparr>readyRRList := List_Append thread (readyRRList s3)\<rparr>
                  else
                    s3\<lparr>readyPriorityList :=
                         SortedList_Append (compare_of PriorityList s3) thread
                           (readyPriorityList s3)\<rparr>)
        in Inr (cout (ProcessReady (ID (threads s4 thread)) (totalTicks s4)) s4))"

subsection \<open>\<^verbatim>\<open>Scheduler::processMoving\<close>\<close>

text \<open>
  One \<^verbatim>\<open>for\<close> loop of \<^verbatim>\<open>processMoving\<close>: \<open>l\<close> is the list the loop removes from,
  \<open>cond\<close> the test of its \<^verbatim>\<open>if\<close> on the thread's priority, and the third argument what is
  left of the iteration.
\<close>

fun processMoving_loop ::
  "sched_consts \<Rightarrow> ready_list \<Rightarrow> (int \<Rightarrow> bool) \<Rightarrow> tid list \<Rightarrow> state \<Rightarrow> error + state" where
  "processMoving_loop c l cond [] s = Inr s"
| "processMoving_loop c l cond (thread # rest) s =
     (if cond (priority (threads s thread)) then
        (case ReadyToRun c thread (setList l (List_Remove thread (getList l s)) s) of
           Inl e \<Rightarrow> Inl e
         | Inr s' \<Rightarrow> processMoving_loop c l cond rest s')
      else processMoving_loop c l cond rest s)"

definition processMoving :: "sched_consts \<Rightarrow> state \<Rightarrow> error + state" where
  "processMoving c s =
     (let iterRR = readyRRList s;
          iterPri = readyPriorityList s;
          iterSJF = readySJFList s
      in case processMoving_loop c SJFList
                (\<lambda>p. p < SJF_SCHD_THRESHHOLD c) iterSJF s of
           Inl e \<Rightarrow> Inl e
         | Inr s1 \<Rightarrow>
             (case processMoving_loop c RRList
                     (\<lambda>p. p < PRI_SCHD_THRESHHOLD c \<or> p \<ge> SJF_SCHD_THRESHHOLD c) iterRR s1 of
                Inl e \<Rightarrow> Inl e
              | Inr s2 \<Rightarrow>
                  processMoving_loop c PriorityList
                    (\<lambda>p. p \<ge> PRI_SCHD_THRESHHOLD c) iterPri s2))"

subsection \<open>\<^verbatim>\<open>Scheduler::aging\<close>\<close>

fun aging_loop :: "sched_consts \<Rightarrow> ready_list \<Rightarrow> tid list \<Rightarrow> state \<Rightarrow> state" where
  "aging_loop c l [] s = s"
| "aging_loop c l (thread # rest) s =
     (let clocks_interval = int32 (totalTicks s - startReadyTime (threads s thread))
      in if clocks_interval \<ge> AGING_TICKS c then
           let s1 = setPriority thread
                      (int32 (PRIORITY_AGING c + priority (threads s thread))) s;
               s2 = setStartReadyTime thread (totalTicks s1) s1;
               s3 = setList l (List_Remove thread (getList l s2)) s2;
               s4 = setList l (SortedList_Insert (compare_of l s3) thread (getList l s3)) s3
           in aging_loop c l rest s4
         else aging_loop c l rest s)"

text \<open>
  \<^verbatim>\<open>aging\<close> casts its argument to a \<^verbatim>\<open>SortedList\<close> with \<^verbatim>\<open>dynamic_cast\<close>; for the plain
  Round-Robin list the cast yields a null pointer, which the iterator's constructor
  then dereferences.
\<close>

definition aging :: "sched_consts \<Rightarrow> ready_list \<Rightarrow> state \<Rightarrow> error + state" where
  "aging c readylist s =
     (case readylist of
        RRList \<Rightarrow> Inl NullPointer
      | _ \<Rightarrow> processMoving c (aging_loop c readylist (getList readylist s) s))"

subsection \<open>\<^verbatim>\<open>Scheduler::FindNextToRun\<close>\<close>

definition FindNextToRun :: "sched_consts \<Rightarrow> state \<Rightarrow> error + (tid option \<times> state)" where
  "FindNextToRun c s =
     (if level s \<noteq> IntOff then Inl AssertionFailed
      else case aging c PriorityList s of
        Inl e \<Rightarrow> Inl e
      | Inr s1 \<Rightarrow>
          (if \<not> IsEmpty (readySJFList s1) then
             Inr (Some (hd (readySJFList s1)), s1\<lparr>readySJFList := tl (readySJFList s1)\<rparr>)
           else if \<not> IsEmpty (readyRRList s1) then
             Inr (Some (hd (readyRRList s1)), s1\<lparr>readyRRList := tl (readyRRList s1)\<rparr>)
           else if \<not> IsEmpty (readyPriorityList s1) then
             Inr (Some (hd (readyPriorityList s1)),
                  s1\<lparr>readyPriorityList := tl (readyPriorityList s1)\<rparr>)
           else Inr (None, s1)))"

subsection \<open>\<^verbatim>\<open>Scheduler::Run\<close> and \<^verbatim>\<open>Scheduler::CheckToBeDestroyed\<close>\<close>

text \<open>
  \<^verbatim>\<open>Run\<close> up to and including the call of \<^verbatim>\<open>SWITCH\<close>. Control leaves the outgoing
  thread there; what the function does once that thread is dispatched again is
  \<open>Run_resumed\<close>, on the state of that later moment.

  Modelled from the spec: \<^verbatim>\<open>Thread::CheckOverflow\<close> is not part of the sources; it is
  a fatal check that the outgoing thread's stack has not overflowed.
\<close>

definition Run :: "tid \<Rightarrow> bool \<Rightarrow> state \<Rightarrow> error + state" where
  "Run nextThread finishing s =
     (let oldThread = currentThread s
      in if oldThread = nextThread then Inr s
         else if level s \<noteq> IntOff then Inl AssertionFailed
         else if finishing \<and> toBeDestroyed s \<noteq> None then Inl AssertionFailed
         else
           let s1 = (if finishing then s\<lparr>toBeDestroyed := Some oldThread\<rparr> else s);
               s2 = (if space (threads s1 oldThread) \<noteq> None
                     then cout (SaveState oldThread) (cout (SaveUserState oldThread) s1)
                     else s1)
           in if stackOverflowed (threads s2 oldThread) then Inl AssertionFailed
              else
                let predicted =
                      binary64 (0.5 *
                        binary64 (real_of_int
                                    (int32 (totalTicks s2 - startBurst (threads s2 oldThread)))
                                  + burstTime (threads s2 oldThread)));
                    s3 = setBurstTime oldThread predicted s2;
                    s4 = setStartBurstTime nextThread (totalTicks s3) s3;
                    s5 = s4\<lparr>currentThread := nextThread\<rparr>;
                    s6 = setStatus nextThread RUNNING s5;
                    s7 = cout (ProcessRunning (ID (threads s6 (currentThread s6)))
                                 (totalTicks s6)) s6
                in Inr (cout (SWITCH oldThread nextThread) s7))"

definition CheckToBeDestroyed :: "state \<Rightarrow> state" where
  "CheckToBeDestroyed s =
     (case toBeDestroyed s of
        None \<Rightarrow> s
      | Some t \<Rightarrow> (cout (DeleteThread t) s)\<lparr>toBeDestroyed := None\<rparr>)"

definition Run_resumed :: "tid \<Rightarrow> state \<Rightarrow> error + state" where
  "Run_resumed oldThread s =
     (if level s \<noteq> IntOff then Inl AssertionFailed
      else
        let s1 = CheckToBeDestroyed s
        in if space (threads s1 oldThread) \<noteq> None
           then Inr (cout (RestoreState oldThread) (cout (RestoreUserState oldThread) s1))
           else Inr s1)"

section \<open>Vocabulary of the properties\<close>

text \<open>
  The queue a priority belongs to, as the \<^verbatim>\<open>if\<close> chain of \<^verbatim>\<open>ReadyToRun\<close> decides it,
  and the condition under which a priority fits a queue, as the loops of
  \<^verbatim>\<open>processMoving\<close> test it (each loop moves a thread exactly when its priority does
  not fit the queue the loop walks).
\<close>

definition band :: "sched_consts \<Rightarrow> int \<Rightarrow> ready_list" where
  "band c pri =
     (if pri \<ge> SJF_SCHD_THRESHHOLD c then SJFList
      else if pri \<ge> PRI_SCHD_THRESHHOLD c then RRList
      else PriorityList)"

fun fits :: "sched_consts \<Rightarrow> ready_list \<Rightarrow> int \<Rightarrow> bool" where
  "fits c SJFList p = (p \<ge> SJF_SCHD_THRESHHOLD c)"
| "fits c RRList p = (PRI_SCHD_THRESHHOLD c \<le> p \<and> p < SJF_SCHD_THRESHHOLD c)"
| "fits c PriorityList p = (p < PRI_SCHD_THRESHHOLD c)"

text \<open>All entries of the three ready queues, with multiplicity.\<close>

definition queued :: "state \<Rightarrow> tid multiset" where
  "queued s = mset (readySJFList s) + mset (readyRRList s) + mset (readyPriorityList s)"

text \<open>A thread object as \<^verbatim>\<open>ReadyToRun\<close> leaves it: marked ready, stamped with the tick.\<close>

definition restamp :: "state \<Rightarrow> tid \<Rightarrow> Thread" where
  "restamp s t = (threads s t)\<lparr>status := READY, startReadyTime := totalTicks s\<rparr>"

text \<open>A thread that sits in a queue its priority does not fit.\<close>

definition misplaced :: "sched_consts \<Rightarrow> state \<Rightarrow> tid \<Rightarrow> bool" where
  "misplaced c s t =
     (t \<in> set (readySJFList s) \<and> \<not> fits c SJFList (priority (threads s t)) \<or>
      t \<in> set (readyRRList s) \<and> \<not> fits c RRList (priority (threads s t)) \<or>
      t \<in> set (readyPriorityList s) \<and> \<not> fits c PriorityList (priority (threads s t)))"

text \<open>
  A list of threads in descending order of priority.
\<close>

definition priority_ordered :: "state \<Rightarrow> tid list \<Rightarrow> bool" where
  "priority_ordered s xs = sorted (map (\<lambda>t. - priority (threads s t)) xs)"

text \<open>
  A thread object as one pass of \<^verbatim>\<open>aging\<close> leaves it when the thread has waited long
  enough, and the test for that.
\<close>

definition aged :: "sched_consts \<Rightarrow> state \<Rightarrow> tid \<Rightarrow> Thread" where
  "aged c s t =
     (threads s t)\<lparr>priority := int32 (PRIORITY_AGING c + priority (threads s t)),
                    startReadyTime := totalTicks s\<rparr>"

definition waited :: "sched_consts \<Rightarrow> state \<Rightarrow> tid \<Rightarrow> bool" where
  "waited c s t = (AGING_TICKS c \<le> int32 (totalTicks s - startReadyTime (threads s t)))"

text \<open>
  Queues in good order: no thread is queued twice, every queued thread sits in the queue
  its priority fits, and every queued thread is marked ready.
\<close>

definition sched_inv :: "sched_consts \<Rightarrow> state \<Rightarrow> bool" where
  "sched_inv c s =
     (distinct (readySJFList s @ readyRRList s @ readyPriorityList s) \<and>
      (\<forall>t\<in>set (readySJFList s). SJF_SCHD_THRESHHOLD c \<le> priority (threads s t)) \<and>
      (\<forall>t\<in>set (readyRRList s). PRI_SCHD_THRESHHOLD c \<le> priority (threads s t) \<and>
                                  priority (threads s t) < SJF_SCHD_THRESHHOLD c) \<and>
      (\<forall>t\<in>set (readyPriorityList s). priority (threads s t) < PRI_SCHD_THRESHHOLD c) \<and>
      (\<forall>t\<in>set (readySJFList s @ readyRRList s @ readyPriorityList s).
          status (threads s t) = READY))"

text \<open>
  The partition property as the spec words it, for one thread: a thread marked ready is
  in exactly one of the three queues, the one its priority selects.
\<close>

definition ready_thread_placed :: "sched_consts \<Rightarrow> state \<Rightarrow> tid \<Rightarrow> bool" where
  "ready_thread_placed c s t =
     (status (threads s t) = READY \<longrightarrow>
        (\<forall>l. (t \<in> set (getList l s)) = (l = band c (priority (threads s t)))))"

text \<open>
  The partition invariant with its exception: every thread outside the set \<open>selected\<close>
  that is marked ready is in exactly the queue its priority selects, and every entry of
  a queue has a priority that fits the queue.
\<close>

definition partition_inv :: "sched_consts \<Rightarrow> tid set \<Rightarrow> state \<Rightarrow> bool" where
  "partition_inv c selected s =
     ((\<forall>t. t \<notin> selected \<longrightarrow> ready_thread_placed c s t) \<and>
      (\<forall>l. \<forall>t\<in>set (getList l s). fits c l (priority (threads s t))))"

subsection \<open>Reachable states\<close>

text \<open>
  What happens to a scheduler between its construction and a later moment: calls of its
  operations, with any arguments and in any order, ticks of the clock and changes of
  the interrupt level. No other code is taken to write the queues or the thread objects
  in between (the spec has aging as the only mutator of a priority, and the system call
  \<^verbatim>\<open>SysNice\<close> out of scope).
\<close>

datatype call =
    ReadyToRun_call tid
  | processMoving_call
  | aging_call ready_list
  | FindNextToRun_call
  | Run_call tid bool
  | Run_resumed_call tid
  | CheckToBeDestroyed_call
  | tick_call nat
  | setLevel_call IntStatus

text \<open>
  One call, on the state and on the set of the selected threads: those that
  \<^verbatim>\<open>FindNextToRun\<close> has removed from a queue and returned to its caller, and that since
  then \<^verbatim>\<open>Run\<close> has not dispatched and \<^verbatim>\<open>ReadyToRun\<close> has not admitted again.
\<close>

fun call_step :: "sched_consts \<Rightarrow> call \<Rightarrow> tid set \<times> state \<Rightarrow> error + tid set \<times> state" where
  "call_step c (ReadyToRun_call thread) (selected, s) =
     (case ReadyToRun c thread s of
        Inl e \<Rightarrow> Inl e
      | Inr s' \<Rightarrow> Inr (selected - {thread}, s'))"
| "call_step c processMoving_call (selected, s) =
     (case processMoving c s of Inl e \<Rightarrow> Inl e | Inr s' \<Rightarrow> Inr (selected, s'))"
| "call_step c (aging_call l) (selected, s) =
     (case aging c l s of Inl e \<Rightarrow> Inl e | Inr s' \<Rightarrow> Inr (selected, s'))"
| "call_step c FindNextToRun_call (selected, s) =
     (case FindNextToRun c s of
        Inl e \<Rightarrow> Inl e
      | Inr (None, s') \<Rightarrow> Inr (selected, s')
      | Inr (Some nextThread, s') \<Rightarrow> Inr (insert nextThread selected, s'))"
| "call_step c (Run_call nextThread finishing) (selected, s) =
     (case Run nextThread finishing s of
        Inl e \<Rightarrow> Inl e
      | Inr s' \<Rightarrow>
          Inr (if nextThread = currentThread s then selected else selected - {nextThread}, s'))"
| "call_step c (Run_resumed_call oldThread) (selected, s) =
     (case Run_resumed oldThread s of Inl e \<Rightarrow> Inl e | Inr s' \<Rightarrow> Inr (selected, s'))"
| "call_step c CheckToBeDestroyed_call (selected, s) = Inr (selected, CheckToBeDestroyed s)"
| "call_step c (tick_call n) (selected, s) =
     Inr (selected, s\<lparr>totalTicks := totalTicks s + int n\<rparr>)"
| "call_step c (setLevel_call lv) (selected, s) = Inr (selected, s\<lparr>level := lv\<rparr>)"

fun calls ::
  "sched_consts \<Rightarrow> call list \<Rightarrow> tid set \<times> state \<Rightarrow> error + tid set \<times> state" where
  "calls c [] x = Inr x"
| "calls c (k # ks) x =
     (case call_step c k x of Inl e \<Rightarrow> Inl e | Inr x' \<Rightarrow> calls c ks x')"

subsection \<open>Scenarios\<close>

text \<open>
  Admitting a list of threads in order, and a number of successive calls of
  \<^verbatim>\<open>FindNextToRun\<close> collecting what each returns: the drivers of the scenarios below.
\<close>

fun ReadyToRun_each :: "sched_consts \<Rightarrow> tid list \<Rightarrow> state \<Rightarrow> error + state" where
  "ReadyToRun_each c [] s = Inr s"
| "ReadyToRun_each c (t # ts) s =
     (case ReadyToRun c t s of Inl e \<Rightarrow> Inl e | Inr s' \<Rightarrow> ReadyToRun_each c ts s')"

fun FindNextToRun_times ::
  "sched_consts \<Rightarrow> nat \<Rightarrow> state \<Rightarrow> error + (tid option list \<times> state)" where
  "FindNextToRun_times c 0 s = Inr ([], s)"
| "FindNextToRun_times c (Suc n) s =
     (case FindNextToRun c s of
        Inl e \<Rightarrow> Inl e
      | Inr (r, s') \<Rightarrow>
          (case FindNextToRun_times c n s' of
             Inl e \<Rightarrow> Inl e
           | Inr (rs, s'') \<Rightarrow> Inr (r # rs, s'')))"

text \<open>
  The running thread \<open>a\<close> consumes \<open>n\<close> bursts of one tick each: the clock advances by
  one tick, \<open>a\<close> is switched out for \<open>b\<close>, and \<open>b\<close> hands the processor back at once.
\<close>

fun one_tick_bursts :: "tid \<Rightarrow> tid \<Rightarrow> nat \<Rightarrow> state \<Rightarrow> error + state" where
  "one_tick_bursts a b 0 s = Inr s"
| "one_tick_bursts a b (Suc n) s =
     (case Run b False (s\<lparr>totalTicks := totalTicks s + 1\<rparr>) of
        Inl e \<Rightarrow> Inl e
      | Inr s1 \<Rightarrow>
          (case Run a False s1 of
             Inl e \<Rightarrow> Inl e
           | Inr s2 \<Rightarrow> one_tick_bursts a b n s2))"

text \<open>
  The SJF queue after the threads \<open>ts\<close> were inserted into an empty queue in order.
\<close>

definition SJF_order :: "state \<Rightarrow> tid list \<Rightarrow> tid list" where
  "SJF_order s ts = foldl (\<lambda>q t. SortedList_Insert (compare_of SJFList s) t q) [] ts"

subsection \<open>A concrete configuration\<close>

text \<open>
  Sample values for the four constants, thread objects and an initial state, used
  to run the operations on concrete inputs.
\<close>

definition c0 :: sched_consts where
  "c0 = \<lparr>SJF_SCHD_THRESHHOLD = 100, PRI_SCHD_THRESHHOLD = 50, AGING_TICKS = 1500,
         PRIORITY_AGING = 10\<rparr>"

definition newThread :: "int \<Rightarrow> int \<Rightarrow> real \<Rightarrow> Thread" where
  "newThread i p b =
     \<lparr>ID = i, status = NEW, priority = p, burstTime = b, startReadyTime = 0, startBurst = 0,
      space = None, stackOverflowed = False\<rparr>"

definition boot :: "IntStatus \<Rightarrow> (tid \<Rightarrow> Thread) \<Rightarrow> state" where
  "boot lv ths =
     \<lparr>threads = ths, currentThread = 0, totalTicks = 0, level = lv, readyRRList = [],
      readyPriorityList = [], readySJFList = [], toBeDestroyed = None, console = []\<rparr>"

definition demo_threads :: "tid \<Rightarrow> Thread" where
  "demo_threads =
     (\<lambda>t. newThread (int t) 0 0)(1 := newThread 1 120 5, 2 := newThread 2 130 2,
        3 := newThread 3 110 8, 4 := newThread 4 60 0, 5 := newThread 5 10 0)"

text \<open>Thread 1 running with interrupts disabled at tick 7.\<close>

definition demo_dispatch :: state where
  "demo_dispatch = boot IntOff demo_threads\<lparr>currentThread := 1, totalTicks := 7\<rparr>"

text \<open>
  Thread 4 (estimate 0) starts running at tick 0 and consumes 53 bursts of one tick,
  handing over to thread 5 and back after each.
\<close>

definition demo_rounding :: "error + state" where
  "demo_rounding = one_tick_bursts 4 5 53 (boot IntOff demo_threads\<lparr>currentThread := 4\<rparr>)"

text \<open>One tick later thread 4 is switched out for thread 5 once more.\<close>

definition demo_rounded :: "error + state" where
  "demo_rounded =
     (case demo_rounding of
        Inl e \<Rightarrow> Inl e
      | Inr s \<Rightarrow> Run 5 False (s\<lparr>totalTicks := totalTicks s + 1\<rparr>))"

text \<open>
  Tick 1500 with two ready threads in the Priority queue: thread 5 (priority 45, ready
  since tick 0) and thread 6 (priority 10, ready since tick 1000).
\<close>

definition demo_waiting :: state where
  "demo_waiting =
     boot IntOff (demo_threads(5 := (newThread 5 45 0)\<lparr>status := READY\<rparr>,
                               6 := (newThread 6 10 0)\<lparr>status := READY, startReadyTime := 1000\<rparr>))
       \<lparr>readyPriorityList := [5, 6], totalTicks := 1500\<rparr>"

text \<open>
  Thread 4 admitted from the initial state, and the selection that follows.
\<close>

definition demo_admitted :: "error + state" where
  "demo_admitted = ReadyToRun c0 4 (boot IntOff demo_threads)"

definition demo_selected :: "error + (tid option \<times> state)" where
  "demo_selected = (case demo_admitted of Inl e \<Rightarrow> Inl e | Inr s \<Rightarrow> FindNextToRun c0 s)"

section \<open>Properties of the machine arithmetic\<close>

lemma round_half_even_int [simp]: "round_half_even (of_int m) = m"
  by (simp add: round_half_even_def)

lemma powr_powi: "(2::real) powr of_int k = 2 powi k"
  by (simp add: powr_real_of_int')

lemma floor_log2_eq:
  assumes "2 powi k \<le> \<bar>x\<bar>" and "\<bar>x\<bar> < 2 powi (k + 1)"
  shows "\<lfloor>log 2 \<bar>x\<bar>\<rfloor> = k"
proof -
  have "(0::real) < 2 powi k" by simp
  then have p: "0 < \<bar>x\<bar>" using assms(1) by linarith
  have "2 powr of_int k \<le> \<bar>x\<bar> \<and> \<bar>x\<bar> < 2 powr (of_int k + 1)"
    using assms powr_powi[of k] powr_powi[of "k + 1"] by simp
  then show ?thesis
    using p by (simp add: floor_log_eq_powr_iff)
qed

lemma floor_log2_le:
  assumes "x \<noteq> 0" and "\<bar>x\<bar> < 2 powi (k + 1)"
  shows "\<lfloor>log 2 \<bar>x\<bar>\<rfloor> \<le> k"
proof -
  have "\<bar>x\<bar> < 2 powr of_int (k + 1)"
    using assms(2) by (simp only: powr_powi)
  then have "log 2 \<bar>x\<bar> < of_int (k + 1)"
    using assms(1) by (simp add: log_less_iff del: of_int_add)
  then have "\<lfloor>log 2 \<bar>x\<bar>\<rfloor> < k + 1" by (simp only: floor_less_iff)
  then show ?thesis by simp
qed

lemma binary64_exact:
  assumes "x = of_int m * 2 powi e" and "\<bar>m\<bar> < 2 ^ 53" and "- 1074 \<le> e"
  shows "binary64 x = x"
proof (cases "x = 0")
  case True
  then show ?thesis by (simp add: binary64_def)
next
  case False
  have "\<bar>x\<bar> = of_int \<bar>m\<bar> * 2 powi e" by (simp add: assms(1) abs_mult)
  also have "\<dots> < 2 ^ 53 * 2 powi e"
    using assms(2) by (intro mult_strict_right_mono) (simp_all flip: of_int_less_iff)
  also have "\<dots> = 2 powi (e + 52 + 1)"
    by (simp add: power_int_add)
  finally have "\<lfloor>log 2 \<bar>x\<bar>\<rfloor> \<le> e + 52" by (rule floor_log2_le[OF False])
  then have le: "binary64_exponent x \<le> e"
    using assms(3) by (simp add: binary64_exponent_def)
  define ex where "ex = binary64_exponent x"
  define d where "d = nat (e - ex)"
  have "e = ex + int d" using le by (simp add: d_def ex_def)
  then have pw: "(2::real) powi e = 2 powi ex * 2 ^ d"
    by (simp add: power_int_add)
  have nz: "(2::real) powi ex \<noteq> 0" by simp
  have q: "x / 2 powi ex = of_int (m * 2 ^ d)"
    unfolding assms(1) pw using nz by simp
  have "binary64 x = of_int (round_half_even (x / 2 powi ex)) * 2 powi ex"
    using False by (simp add: binary64_def ex_def)
  also have "\<dots> = of_int (m * 2 ^ d) * 2 powi ex"
    unfolding q by (simp only: round_half_even_int)
  also have "\<dots> = x"
    unfolding assms(1) pw by simp
  finally show ?thesis .
qed

lemma binary64_tie_example: "binary64 (1 + (1 - 1 / 2 ^ 53)) = 2"
proof -
  let ?x = "1 + (1 - 1 / 2 ^ 53) :: real"
  have "\<lfloor>log 2 \<bar>?x\<bar>\<rfloor> = 0"
    by (rule floor_log2_eq) simp_all
  then have e: "binary64_exponent ?x = - 52" by (simp add: binary64_exponent_def)
  have q: "?x / 2 powi (- 52) = 2 ^ 53 - 1 / 2"
    by (simp add: power_int_minus field_simps)
  have f: "\<lfloor>2 ^ 53 - 1 / 2 :: real\<rfloor> = 2 ^ 53 - 1"
    by (simp add: floor_eq_iff)
  have "round_half_even (2 ^ 53 - 1 / 2) = 2 ^ 53"
    unfolding round_half_even_def f by (simp add: Let_def)
  then have "binary64 ?x = of_int (2 ^ 53) * 2 powi (- 52)"
    unfolding binary64_def e q by simp
  also have "\<dots> = 2" by (simp add: power_int_minus)
  finally show ?thesis .
qed

lemma binary64_small_ints: "binary64 1 = 1" "binary64 12 = 12" "binary64 6 = 6"
  using binary64_exact[of 1 1 0] binary64_exact[of 12 12 0] binary64_exact[of 6 6 0]
  by simp_all

lemma int32_id: "is_int32 x \<Longrightarrow> int32 x = x"
  by (simp add: int32_def is_int32_def)

lemma binary64_zero [simp]: "binary64 0 = 0"
  by (simp add: binary64_def)

lemma binary64_halved_sum:
  assumes "y = of_int m * 2 powi e" and "\<bar>m\<bar> < 2 ^ 53" and "- 1073 \<le> e"
  shows "binary64 (0.5 * binary64 y) = 0.5 * y"
proof -
  have 1: "binary64 y = y"
    using binary64_exact[OF assms(1,2)] assms(3) by simp
  have "0.5 * y = of_int m * 2 powi (e - 1)"
    using assms(1) by (simp add: power_int_diff)
  then have "binary64 (0.5 * y) = 0.5 * y"
    using binary64_exact[of "0.5 * y" m "e - 1"] assms(2,3) by simp
  then show ?thesis by (simp only: 1)
qed

lemma binary64_one_tick:
  assumes "k \<le> 52"
  shows "binary64 (0.5 * binary64 (1 + (1 - 1 / 2 ^ k))) = 1 - 1 / 2 ^ Suc k"
proof -
  have "(2::int) ^ Suc k \<le> 2 ^ 53"
    using assms by (intro power_increasing) simp_all
  then have p: "\<bar>(2::int) ^ Suc k - 1\<bar> < 2 ^ 53" by simp
  have x: "(1::real) + (1 - 1 / 2 ^ k) = of_int (2 ^ Suc k - 1) * 2 powi (- int k)"
    by (simp add: power_int_minus field_simps)
  have "binary64 (0.5 * binary64 (1 + (1 - 1 / 2 ^ k))) = 0.5 * (1 + (1 - 1 / 2 ^ k))"
    using assms by (intro binary64_halved_sum[OF x p]) simp
  then show ?thesis by (simp add: field_simps)
qed

section \<open>Properties of the list library and of \<^verbatim>\<open>ReadyToRun\<close>\<close>

lemma mset_SortedList_Insert: "mset (SortedList_Insert cmp x xs) = add_mset x (mset xs)"
  by (induction xs) auto

lemma set_SortedList_Insert: "set (SortedList_Insert cmp x xs) = insert x (set xs)"
  by (induction xs) auto

lemma band_fits: "band c p = l \<Longrightarrow> fits c l p"
  by (cases l) (auto simp: band_def split: if_splits)

lemma getList_setList [simp]:
  "getList l' (setList l xs s) = (if l' = l then xs else getList l' s)"
  by (cases l; cases l') auto

lemma setList_fields [simp]:
  "threads (setList l xs s) = threads s"
  "level (setList l xs s) = level s"
  "totalTicks (setList l xs s) = totalTicks s"
  "currentThread (setList l xs s) = currentThread s"
  "toBeDestroyed (setList l xs s) = toBeDestroyed s"
  "console (setList l xs s) = console s"
  by (cases l; simp)+

lemma queued_getList:
  "queued s = mset (getList SJFList s) + mset (getList RRList s) + mset (getList PriorityList s)"
  by (simp add: queued_def)

lemma queued_setList_remove:
  "t \<in> set (getList l s) \<Longrightarrow> queued (setList l (List_Remove t (getList l s)) s) = queued s - {#t#}"
  by (cases l) (auto simp: queued_def List_Remove_def)

lemma compare_of_threads: "threads s' = threads s \<Longrightarrow> compare_of l s' = compare_of l s"
  by (cases l) (auto simp: fun_eq_iff)

lemma compare_of_setStatus [simp]: "compare_of l (setStatus t st s) = compare_of l s"
  by (cases l) (auto simp: fun_eq_iff compare_by_priority_def compare_by_burst_def setStatus_def)

lemma compare_of_setStartReadyTime [simp]:
  "compare_of l (setStartReadyTime t n s) = compare_of l s"
  by (cases l)
     (auto simp: fun_eq_iff compare_by_priority_def compare_by_burst_def setStartReadyTime_def)

lemma compare_of_cout [simp]: "compare_of l (cout e s) = compare_of l s"
  by (cases l) (auto simp: fun_eq_iff cout_def)

lemma setStatus_fields [simp]:
  "threads (setStatus t st s) = (threads s)(t := (threads s t)\<lparr>status := st\<rparr>)"
  "level (setStatus t st s) = level s"
  "totalTicks (setStatus t st s) = totalTicks s"
  "currentThread (setStatus t st s) = currentThread s"
  "toBeDestroyed (setStatus t st s) = toBeDestroyed s"
  "readyRRList (setStatus t st s) = readyRRList s"
  "readyPriorityList (setStatus t st s) = readyPriorityList s"
  "readySJFList (setStatus t st s) = readySJFList s"
  "console (setStatus t st s) = console s"
  by (simp_all add: setStatus_def)

lemma setStartReadyTime_fields [simp]:
  "threads (setStartReadyTime t n s) = (threads s)(t := (threads s t)\<lparr>startReadyTime := n\<rparr>)"
  "level (setStartReadyTime t n s) = level s"
  "totalTicks (setStartReadyTime t n s) = totalTicks s"
  "currentThread (setStartReadyTime t n s) = currentThread s"
  "toBeDestroyed (setStartReadyTime t n s) = toBeDestroyed s"
  "readyRRList (setStartReadyTime t n s) = readyRRList s"
  "readyPriorityList (setStartReadyTime t n s) = readyPriorityList s"
  "readySJFList (setStartReadyTime t n s) = readySJFList s"
  "console (setStartReadyTime t n s) = console s"
  by (simp_all add: setStartReadyTime_def)

lemma setPriority_fields [simp]:
  "threads (setPriority t p s) = (threads s)(t := (threads s t)\<lparr>priority := p\<rparr>)"
  "level (setPriority t p s) = level s"
  "totalTicks (setPriority t p s) = totalTicks s"
  "currentThread (setPriority t p s) = currentThread s"
  "toBeDestroyed (setPriority t p s) = toBeDestroyed s"
  "readyRRList (setPriority t p s) = readyRRList s"
  "readyPriorityList (setPriority t p s) = readyPriorityList s"
  "readySJFList (setPriority t p s) = readySJFList s"
  "console (setPriority t p s) = console s"
  by (simp_all add: setPriority_def)

lemma cout_fields [simp]:
  "threads (cout e s) = threads s"
  "level (cout e s) = level s"
  "totalTicks (cout e s) = totalTicks s"
  "currentThread (cout e s) = currentThread s"
  "toBeDestroyed (cout e s) = toBeDestroyed s"
  "readyRRList (cout e s) = readyRRList s"
  "readyPriorityList (cout e s) = readyPriorityList s"
  "readySJFList (cout e s) = readySJFList s"
  "console (cout e s) = console s @ [e]"
  by (simp_all add: cout_def)

lemma accessor_lists [simp]:
  "getList l (setStatus t st s) = getList l s"
  "getList l (setStartReadyTime t n s) = getList l s"
  "getList l (setPriority t p s) = getList l s"
  "getList l (cout e s) = getList l s"
  by (cases l; simp)+

lemma ReadyToRun_IntOn: "level s \<noteq> IntOff \<Longrightarrow> ReadyToRun c t s = Inl AssertionFailed"
  by (simp add: ReadyToRun_def)

lemma ReadyToRun_total: "level s = IntOff \<Longrightarrow> \<exists>s'. ReadyToRun c t s = Inr s'"
  by (simp add: ReadyToRun_def Let_def)

lemma ReadyToRun_threads:
  "ReadyToRun c t s = Inr s' \<Longrightarrow>
   threads s' = (threads s)(t := (threads s t)\<lparr>status := READY, startReadyTime := totalTicks s\<rparr>)"
  by (auto simp: ReadyToRun_def Let_def split: if_splits)

lemma ReadyToRun_frame:
  "ReadyToRun c t s = Inr s' \<Longrightarrow>
   level s' = IntOff \<and> level s = IntOff \<and> totalTicks s' = totalTicks s \<and> currentThread s' = currentThread s \<and>
   toBeDestroyed s' = toBeDestroyed s"
  by (auto simp: ReadyToRun_def Let_def split: if_splits)

lemma ReadyToRun_priority:
  "ReadyToRun c t s = Inr s' \<Longrightarrow> priority (threads s' u) = priority (threads s u)"
  by (simp add: ReadyToRun_threads)

lemma ReadyToRun_other:
  "ReadyToRun c t s = Inr s' \<Longrightarrow> l \<noteq> band c (priority (threads s t)) \<Longrightarrow> getList l s' = getList l s"
  by (cases l) (auto simp: ReadyToRun_def Let_def band_def split: if_splits)

lemma ReadyToRun_band:
  assumes "ReadyToRun c t s = Inr s'" and "l = band c (priority (threads s t))"
  shows "getList l s' =
     (if l = RRList then getList l s @ [t] else SortedList_Insert (compare_of l s) t (getList l s))"
  using assms
  by (auto simp: ReadyToRun_def Let_def band_def SortedList_Append_def List_Append_def
           split: if_splits)

lemma ReadyToRun_mset:
  "ReadyToRun c t s = Inr s' \<Longrightarrow>
   mset (getList l s') = (if l = band c (priority (threads s t)) then add_mset t (mset (getList l s)) else mset (getList l s))"
  using ReadyToRun_band[of c t s s' l] ReadyToRun_other[of c t s s' l]
  by (auto simp: mset_SortedList_Insert)

lemma ReadyToRun_queued:
  assumes "ReadyToRun c t s = Inr s'" shows "queued s' = add_mset t (queued s)"
  unfolding queued_getList
  using ReadyToRun_mset[OF assms, of SJFList] ReadyToRun_mset[OF assms, of RRList]
    ReadyToRun_mset[OF assms, of PriorityList]
  by (cases "band c (priority (threads s t))") auto

section \<open>The loops of \<^verbatim>\<open>processMoving\<close>\<close>

lemma moving_step:
  assumes "level s = IntOff" and "band c (priority (threads s x)) \<noteq> l"
  shows "\<exists>s1. ReadyToRun c x (setList l (List_Remove x (getList l s)) s) = Inr s1 \<and>
           level s1 = IntOff \<and> totalTicks s1 = totalTicks s \<and>
           currentThread s1 = currentThread s \<and> toBeDestroyed s1 = toBeDestroyed s \<and>
           threads s1 = (threads s)(x := restamp s x) \<and>
           getList l s1 = remove1 x (getList l s) \<and>
           (\<forall>l'. l' \<noteq> l \<longrightarrow> mset (getList l' s1) =
                  (if l' = band c (priority (threads s x)) then add_mset x (mset (getList l' s))
                   else mset (getList l' s))) \<and>
           (x \<in> set (getList l s) \<longrightarrow> queued s1 = queued s)"
proof -
  define s0 where "s0 = setList l (List_Remove x (getList l s)) s"
  have s0: "level s0 = IntOff" "threads s0 = threads s" "totalTicks s0 = totalTicks s"
    "currentThread s0 = currentThread s" "toBeDestroyed s0 = toBeDestroyed s"
    "getList l s0 = remove1 x (getList l s)"
    using assms(1) by (simp_all add: s0_def List_Remove_def)
  have s0': "getList l' s0 = (if l' = l then remove1 x (getList l s) else getList l' s)" for l'
    by (simp add: s0_def List_Remove_def)
  from ReadyToRun_total[OF s0(1), of c x] obtain s1 where r: "ReadyToRun c x s0 = Inr s1" ..
  have b: "l \<noteq> band c (priority (threads s0 x))" using assms(2) s0(2) by auto
  have 1: "getList l s1 = remove1 x (getList l s)"
    using ReadyToRun_other[OF r b] s0(6) by simp
  have 2: "threads s1 = (threads s)(x := restamp s x)"
    using ReadyToRun_threads[OF r] by (simp add: restamp_def s0)
  have 3: "mset (getList l' s1) =
             (if l' = band c (priority (threads s x)) then add_mset x (mset (getList l' s))
              else mset (getList l' s))" if "l' \<noteq> l" for l'
    using ReadyToRun_mset[OF r, of l'] that by (auto simp: s0' s0(2))
  have 4: "queued s1 = queued s" if "x \<in> set (getList l s)"
  proof -
    have "queued s1 = add_mset x (queued s0)"
      by (rule ReadyToRun_queued[OF r])
    also have "\<dots> = add_mset x (queued s - {#x#})"
      unfolding s0_def by (simp only: queued_setList_remove[OF that])
    also have "\<dots> = queued s"
    proof -
      have "x \<in># queued s" using that by (cases l) (auto simp: queued_def)
      then show ?thesis by (rule insert_DiffM)
    qed
    finally show ?thesis .
  qed
  have 5: "level s1 = IntOff" "totalTicks s1 = totalTicks s"
           "currentThread s1 = currentThread s" "toBeDestroyed s1 = toBeDestroyed s"
    using ReadyToRun_frame[OF r] s0 by simp_all
  show ?thesis
    unfolding s0_def[symmetric]
    using r 1 2 3 4 5 by (intro exI[of _ s1] conjI allI impI) auto
qed

lemma restamp_priority [simp]: "priority (restamp s t) = priority (threads s t)"
  by (simp add: restamp_def)

lemma filter_remove1_dropped: "\<not> P x \<Longrightarrow> filter P (remove1 x xs) = filter P xs"
  by (induction xs) auto

lemma moving_loop:
  assumes "level s = IntOff"
    and cond: "\<And>p. cond p = (\<not> fits c l p)"
    and cnt: "\<And>t. cond (priority (threads s t)) \<Longrightarrow>
                count (mset (getList l s)) t = count (mset ts) t"
  shows "\<exists>s'. processMoving_loop c l cond ts s = Inr s' \<and>
           level s' = IntOff \<and> totalTicks s' = totalTicks s \<and>
           currentThread s' = currentThread s \<and> toBeDestroyed s' = toBeDestroyed s \<and>
           (\<forall>t. threads s' t =
                 (if t \<in> set ts \<and> cond (priority (threads s t)) then restamp s t
                  else threads s t)) \<and>
           getList l s' = filter (\<lambda>t. \<not> cond (priority (threads s t))) (getList l s) \<and>
           (\<forall>l'. l' \<noteq> l \<longrightarrow> mset (getList l' s') = mset (getList l' s) +
                  filter_mset (\<lambda>t. cond (priority (threads s t)) \<and>
                                     band c (priority (threads s t)) = l') (mset ts)) \<and>
           queued s' = queued s"
  using assms(1) cnt
proof (induction ts arbitrary: s)
  case Nil
  have "\<forall>t \<in> set (getList l s). \<not> cond (priority (threads s t))"
  proof
    fix t assume "t \<in> set (getList l s)"
    then have "count (mset (getList l s)) t > 0" by simp
    then show "\<not> cond (priority (threads s t))" using Nil(2)[of t] by auto
  qed
  then have "filter (\<lambda>t. \<not> cond (priority (threads s t))) (getList l s) = getList l s"
    by (simp add: filter_id_conv)
  then show ?case using Nil(1) by simp
next
  case (Cons x rest)
  show ?case
  proof (cases "cond (priority (threads s x))")
    case True
    have bl: "band c (priority (threads s x)) \<noteq> l"
      using True cond band_fits by blast
    have xin: "x \<in> set (getList l s)"
    proof -
      have "count (mset (getList l s)) x = count (mset (x # rest)) x"
        using Cons.prems(2)[OF True] .
      then have "count (mset (getList l s)) x > 0" by simp
      then show ?thesis by simp
    qed
    from moving_step[OF Cons.prems(1) bl]
    obtain s1 where
      r: "ReadyToRun c x (setList l (List_Remove x (getList l s)) s) = Inr s1" and
      f: "level s1 = IntOff" "totalTicks s1 = totalTicks s"
         "currentThread s1 = currentThread s" "toBeDestroyed s1 = toBeDestroyed s" and
      th: "threads s1 = (threads s)(x := restamp s x)" and
      gl: "getList l s1 = remove1 x (getList l s)" and
      go: "\<And>l'. l' \<noteq> l \<Longrightarrow> mset (getList l' s1) =
                  (if l' = band c (priority (threads s x)) then add_mset x (mset (getList l' s))
                   else mset (getList l' s))" and
      q: "queued s1 = queued s"
      using xin by blast
    have pri: "priority (threads s1 t) = priority (threads s t)" for t
      by (simp add: th)
    have rs: "restamp s1 t = restamp s t" for t
      by (simp add: restamp_def th f)
    have cnt1: "count (mset (getList l s1)) t = count (mset rest) t"
      if "cond (priority (threads s1 t))" for t
    proof -
      have "count (mset (getList l s)) t = count (mset (x # rest)) t"
        using Cons.prems(2)[of t] that by (simp add: pri)
      then show ?thesis using xin by (cases "t = x") (auto simp: gl)
    qed
    from Cons.IH[OF f(1) cnt1] obtain s' where
      l: "processMoving_loop c l cond rest s1 = Inr s'" and
      f': "level s' = IntOff" "totalTicks s' = totalTicks s1"
         "currentThread s' = currentThread s1" "toBeDestroyed s' = toBeDestroyed s1" and
      th': "\<And>t. threads s' t =
                 (if t \<in> set rest \<and> cond (priority (threads s1 t)) then restamp s1 t
                  else threads s1 t)" and
      gl': "getList l s' = filter (\<lambda>t. \<not> cond (priority (threads s1 t))) (getList l s1)" and
      go': "\<And>l'. l' \<noteq> l \<Longrightarrow> mset (getList l' s') = mset (getList l' s1) +
                  filter_mset (\<lambda>t. cond (priority (threads s1 t)) \<and>
                                     band c (priority (threads s1 t)) = l') (mset rest)" and
      q': "queued s' = queued s1"
      by blast
    have 1: "processMoving_loop c l cond (x # rest) s = Inr s'"
      using True r l by simp
    have 2: "threads s' t =
                 (if t \<in> set (x # rest) \<and> cond (priority (threads s t)) then restamp s t
                  else threads s t)" for t
      using True by (auto simp: th' pri rs th)
    have 3: "getList l s' = filter (\<lambda>t. \<not> cond (priority (threads s t))) (getList l s)"
      using True by (simp add: gl' pri gl filter_remove1_dropped)
    have 4: "mset (getList l' s') = mset (getList l' s) +
                  filter_mset (\<lambda>t. cond (priority (threads s t)) \<and>
                                     band c (priority (threads s t)) = l') (mset (x # rest))"
      if "l' \<noteq> l" for l'
      using True by (simp add: go'[OF that] go[OF that] pri)
    show ?thesis
      using 1 2 3 4 f f' q q' by (intro exI[of _ s'] conjI allI impI) auto
  next
    case False
    have cnt1: "count (mset (getList l s)) t = count (mset rest) t"
      if "cond (priority (threads s t))" for t
      using Cons.prems(2)[OF that] that False by (cases "t = x") auto
    from Cons.IH[OF Cons.prems(1) cnt1] obtain s' where
      l: "processMoving_loop c l cond rest s = Inr s'" and
      f': "level s' = IntOff" "totalTicks s' = totalTicks s"
         "currentThread s' = currentThread s" "toBeDestroyed s' = toBeDestroyed s" and
      th': "\<And>t. threads s' t =
                 (if t \<in> set rest \<and> cond (priority (threads s t)) then restamp s t
                  else threads s t)" and
      gl': "getList l s' = filter (\<lambda>t. \<not> cond (priority (threads s t))) (getList l s)" and
      go': "\<And>l'. l' \<noteq> l \<Longrightarrow> mset (getList l' s') = mset (getList l' s) +
                  filter_mset (\<lambda>t. cond (priority (threads s t)) \<and>
                                     band c (priority (threads s t)) = l') (mset rest)" and
      q': "queued s' = queued s"
      by blast
    have 1: "processMoving_loop c l cond (x # rest) s = Inr s'"
      using False l by simp
    have 2: "threads s' t =
                 (if t \<in> set (x # rest) \<and> cond (priority (threads s t)) then restamp s t
                  else threads s t)" for t
      using False by (auto simp: th')
    have 4: "mset (getList l' s') = mset (getList l' s) +
                  filter_mset (\<lambda>t. cond (priority (threads s t)) \<and>
                                     band c (priority (threads s t)) = l') (mset (x # rest))"
      if "l' \<noteq> l" for l'
      using False by (simp add: go'[OF that])
    show ?thesis
      using 1 2 gl' 4 f' q' by (intro exI[of _ s'] conjI allI impI) auto
  qed
qed

lemma moving_loop_facts:
  assumes "level s = IntOff"
    and cond: "\<And>p. cond p = (\<not> fits c l p)"
    and cnt: "\<And>t. \<not> fits c l (priority (threads s t)) \<Longrightarrow>
                count (mset (getList l s)) t = count (mset ts) t"
  obtains s' where
    "processMoving_loop c l cond ts s = Inr s'"
    "level s' = IntOff" "totalTicks s' = totalTicks s"
    "currentThread s' = currentThread s" "toBeDestroyed s' = toBeDestroyed s"
    "\<And>t. threads s' t =
          (if t \<in> set ts \<and> \<not> fits c l (priority (threads s t)) then restamp s t
           else threads s t)"
    "\<And>t. priority (threads s' t) = priority (threads s t)"
    "getList l s' = filter (\<lambda>t. fits c l (priority (threads s t))) (getList l s)"
    "\<And>l' t. l' \<noteq> l \<Longrightarrow> \<not> fits c l' (priority (threads s t)) \<Longrightarrow>
          count (mset (getList l' s')) t = count (mset (getList l' s)) t"
    "\<And>l' t. l' \<noteq> l \<Longrightarrow> t \<in> set (getList l' s) \<Longrightarrow> t \<in> set (getList l' s')"
    "\<And>l' t. l' \<noteq> l \<Longrightarrow> t \<in> set (getList l' s') \<Longrightarrow>
          t \<in> set (getList l' s) \<or> fits c l' (priority (threads s t))"
    "queued s' = queued s"
proof -
  have cnt': "count (mset (getList l s)) t = count (mset ts) t"
    if "cond (priority (threads s t))" for t
    using cnt that cond by simp
  from moving_loop[OF assms(1) cond cnt'] obtain s' where
    l: "processMoving_loop c l cond ts s = Inr s'" and
    f: "level s' = IntOff" "totalTicks s' = totalTicks s"
       "currentThread s' = currentThread s" "toBeDestroyed s' = toBeDestroyed s" and
    th: "\<And>t. threads s' t =
                 (if t \<in> set ts \<and> cond (priority (threads s t)) then restamp s t
                  else threads s t)" and
    gl: "getList l s' = filter (\<lambda>t. \<not> cond (priority (threads s t))) (getList l s)" and
    go: "\<And>l'. l' \<noteq> l \<Longrightarrow> mset (getList l' s') = mset (getList l' s) +
                filter_mset (\<lambda>t. cond (priority (threads s t)) \<and>
                                   band c (priority (threads s t)) = l') (mset ts)" and
    q: "queued s' = queued s"
    by blast
  have 1: "threads s' t =
          (if t \<in> set ts \<and> \<not> fits c l (priority (threads s t)) then restamp s t
           else threads s t)" for t
    using th[of t] by (simp add: cond)
  have 2: "priority (threads s' t) = priority (threads s t)" for t
    by (simp add: 1)
  have 3: "getList l s' = filter (\<lambda>t. fits c l (priority (threads s t))) (getList l s)"
    using gl by (simp add: cond)
  have 4: "count (mset (getList l' s')) t = count (mset (getList l' s)) t"
    if "l' \<noteq> l" "\<not> fits c l' (priority (threads s t))" for l' t
    using that(2) band_fits[of c "priority (threads s t)" l'] by (auto simp: go[OF that(1)])
  have 5: "t \<in> set (getList l' s')"  if "l' \<noteq> l" "t \<in> set (getList l' s)" for l' t
  proof -
    have "t \<in># mset (getList l' s')" using that(2) by (simp add: go[OF that(1)])
    then show ?thesis by simp
  qed
  have 6: "t \<in> set (getList l' s) \<or> fits c l' (priority (threads s t))"
    if "l' \<noteq> l" "t \<in> set (getList l' s')" for l' t
  proof -
    have "t \<in># mset (getList l' s')" using that(2) by simp
    then show ?thesis
      using band_fits[of c "priority (threads s t)" l'] by (auto simp: go[OF that(1)])
  qed
  show ?thesis
    using that[OF l f 1 2 3 4 5 6 q] by blast
qed

lemma restamp_again:
  "totalTicks s1 = totalTicks s \<Longrightarrow> threads s1 t = threads s t \<or> threads s1 t = restamp s t \<Longrightarrow>
   restamp s1 t = restamp s t"
  by (auto simp: restamp_def)

lemma processMoving_facts:
  assumes "level s = IntOff"
  obtains s' where
    "processMoving c s = Inr s'"
    "level s' = IntOff" "totalTicks s' = totalTicks s"
    "currentThread s' = currentThread s" "toBeDestroyed s' = toBeDestroyed s"
    "\<And>t. threads s' t = (if misplaced c s t then restamp s t else threads s t)"
    "\<And>l t. t \<in> set (getList l s') \<Longrightarrow> fits c l (priority (threads s t))"
    "\<And>l t. t \<in> set (getList l s) \<Longrightarrow> fits c l (priority (threads s t)) \<Longrightarrow>
            t \<in> set (getList l s')"
    "queued s' = queued s"
proof -
  have c1: "(p < SJF_SCHD_THRESHHOLD c) = (\<not> fits c SJFList p)" for p by auto
  have c2: "(p < PRI_SCHD_THRESHHOLD c \<or> p \<ge> SJF_SCHD_THRESHHOLD c) = (\<not> fits c RRList p)"
    for p by auto
  have c3: "(p \<ge> PRI_SCHD_THRESHHOLD c) = (\<not> fits c PriorityList p)" for p by auto
  obtain s1 where
    l1: "processMoving_loop c SJFList (\<lambda>p. p < SJF_SCHD_THRESHHOLD c) (readySJFList s) s = Inr s1"
    and f1: "level s1 = IntOff" "totalTicks s1 = totalTicks s"
       "currentThread s1 = currentThread s" "toBeDestroyed s1 = toBeDestroyed s"
    and th1: "\<And>t. threads s1 t =
          (if t \<in> set (readySJFList s) \<and> \<not> fits c SJFList (priority (threads s t))
           then restamp s t else threads s t)"
    and p1: "\<And>t. priority (threads s1 t) = priority (threads s t)"
    and g1: "getList SJFList s1 =
               filter (\<lambda>t. fits c SJFList (priority (threads s t))) (getList SJFList s)"
    and n1: "\<And>l' t. l' \<noteq> SJFList \<Longrightarrow> \<not> fits c l' (priority (threads s t)) \<Longrightarrow>
          count (mset (getList l' s1)) t = count (mset (getList l' s)) t"
    and k1: "\<And>l' t. l' \<noteq> SJFList \<Longrightarrow> t \<in> set (getList l' s) \<Longrightarrow> t \<in> set (getList l' s1)"
    and o1: "\<And>l' t. l' \<noteq> SJFList \<Longrightarrow> t \<in> set (getList l' s1) \<Longrightarrow>
          t \<in> set (getList l' s) \<or> fits c l' (priority (threads s t))"
    and q1: "queued s1 = queued s"
    using moving_loop_facts[OF assms c1, of "readySJFList s" thesis] by simp
  have cnt2: "count (mset (getList RRList s1)) t = count (mset (readyRRList s)) t"
    if "\<not> fits c RRList (priority (threads s1 t))" for t
    using n1[of RRList t] that by (simp add: p1)
  obtain s2 where
    l2: "processMoving_loop c RRList
           (\<lambda>p. p < PRI_SCHD_THRESHHOLD c \<or> p \<ge> SJF_SCHD_THRESHHOLD c) (readyRRList s) s1 = Inr s2"
    and f2: "level s2 = IntOff" "totalTicks s2 = totalTicks s1"
       "currentThread s2 = currentThread s1" "toBeDestroyed s2 = toBeDestroyed s1"
    and th2: "\<And>t. threads s2 t =
          (if t \<in> set (readyRRList s) \<and> \<not> fits c RRList (priority (threads s1 t))
           then restamp s1 t else threads s1 t)"
    and p2: "\<And>t. priority (threads s2 t) = priority (threads s1 t)"
    and g2: "getList RRList s2 =
               filter (\<lambda>t. fits c RRList (priority (threads s1 t))) (getList RRList s1)"
    and n2: "\<And>l' t. l' \<noteq> RRList \<Longrightarrow> \<not> fits c l' (priority (threads s1 t)) \<Longrightarrow>
          count (mset (getList l' s2)) t = count (mset (getList l' s1)) t"
    and k2: "\<And>l' t. l' \<noteq> RRList \<Longrightarrow> t \<in> set (getList l' s1) \<Longrightarrow> t \<in> set (getList l' s2)"
    and o2: "\<And>l' t. l' \<noteq> RRList \<Longrightarrow> t \<in> set (getList l' s2) \<Longrightarrow>
          t \<in> set (getList l' s1) \<or> fits c l' (priority (threads s1 t))"
    and q2: "queued s2 = queued s1"
    using moving_loop_facts[OF f1(1) c2 cnt2, of thesis] by simp
  have cnt3: "count (mset (getList PriorityList s2)) t = count (mset (readyPriorityList s)) t"
    if "\<not> fits c PriorityList (priority (threads s2 t))" for t
    using n2[of PriorityList t] n1[of PriorityList t] that by (simp add: p1 p2)
  obtain s3 where
    l3: "processMoving_loop c PriorityList
           (\<lambda>p. p \<ge> PRI_SCHD_THRESHHOLD c) (readyPriorityList s) s2 = Inr s3"
    and f3: "level s3 = IntOff" "totalTicks s3 = totalTicks s2"
       "currentThread s3 = currentThread s2" "toBeDestroyed s3 = toBeDestroyed s2"
    and th3: "\<And>t. threads s3 t =
          (if t \<in> set (readyPriorityList s) \<and> \<not> fits c PriorityList (priority (threads s2 t))
           then restamp s2 t else threads s2 t)"
    and p3: "\<And>t. priority (threads s3 t) = priority (threads s2 t)"
    and g3: "getList PriorityList s3 =
               filter (\<lambda>t. fits c PriorityList (priority (threads s2 t))) (getList PriorityList s2)"
    and n3: "\<And>l' t. l' \<noteq> PriorityList \<Longrightarrow> \<not> fits c l' (priority (threads s2 t)) \<Longrightarrow>
          count (mset (getList l' s3)) t = count (mset (getList l' s2)) t"
    and k3: "\<And>l' t. l' \<noteq> PriorityList \<Longrightarrow> t \<in> set (getList l' s2) \<Longrightarrow>
          t \<in> set (getList l' s3)"
    and o3: "\<And>l' t. l' \<noteq> PriorityList \<Longrightarrow> t \<in> set (getList l' s3) \<Longrightarrow>
          t \<in> set (getList l' s2) \<or> fits c l' (priority (threads s2 t))"
    and q3: "queued s3 = queued s2"
    using moving_loop_facts[OF f2(1) c3 cnt3, of thesis] by simp
  have r: "processMoving c s = Inr s3"
    by (simp add: processMoving_def l1 l2 l3)
  have rs1: "restamp s1 t = restamp s t" for t
    by (rule restamp_again[OF f1(2)]) (simp add: th1)
  have th2': "threads s2 t = threads s t \<or> threads s2 t = restamp s t" for t
    by (simp add: th2 rs1 th1)
  have rs2: "restamp s2 t = restamp s t" for t
    by (rule restamp_again[OF _ th2']) (simp add: f1 f2)
  have th: "threads s3 t = (if misplaced c s t then restamp s t else threads s t)" for t
    by (auto simp: th3 th2 th1 rs1 rs2 p1 p2 misplaced_def)
  have fit: "fits c l (priority (threads s t))" if "t \<in> set (getList l s3)" for l t
  proof (cases l)
    case SJFList
    then show ?thesis
      using that o3[of SJFList t] o2[of SJFList t] g1 by (auto simp: p1 p2)
  next
    case RRList
    then show ?thesis
      using that o3[of RRList t] g2 by (auto simp: p1 p2)
  next
    case PriorityList
    then show ?thesis
      using that g3 by (auto simp: p1 p2)
  qed
  have stay: "t \<in> set (getList l s3)"
    if "t \<in> set (getList l s)" "fits c l (priority (threads s t))" for l t
  proof (cases l)
    case SJFList
    then have "t \<in> set (getList SJFList s1)" using that g1 by simp
    then show ?thesis using k2[of SJFList t] k3[of SJFList t] SJFList by simp
  next
    case RRList
    then have "t \<in> set (getList RRList s1)" using that k1[of RRList t] by simp
    then have "t \<in> set (getList RRList s2)" using that RRList g2 by (simp add: p1)
    then show ?thesis using k3[of RRList t] RRList by simp
  next
    case PriorityList
    then have "t \<in> set (getList PriorityList s2)"
      using that k1[of PriorityList t] k2[of PriorityList t] by simp
    then show ?thesis using that PriorityList g3 by (simp add: p1 p2)
  qed
  show ?thesis
    using that[OF r f3(1) _ _ _ th fit stay] f1 f2 f3 q1 q2 q3 by simp
qed

section \<open>\<^verbatim>\<open>aging\<close> and \<^verbatim>\<open>Run\<close> return\<close>

lemma aging_loop_frame:
  "level (aging_loop c l ts s) = level s \<and> totalTicks (aging_loop c l ts s) = totalTicks s \<and>
   currentThread (aging_loop c l ts s) = currentThread s \<and>
   toBeDestroyed (aging_loop c l ts s) = toBeDestroyed s \<and>
   console (aging_loop c l ts s) = console s"
  by (induction ts arbitrary: s) (simp_all add: Let_def)

lemma aging_total:
  assumes "level s = IntOff"
  shows "\<exists>s1. aging c PriorityList s = Inr s1"
proof -
  have "level (aging_loop c PriorityList (readyPriorityList s) s) = IntOff"
    using assms by (simp add: aging_loop_frame)
  then show ?thesis
  proof (rule processMoving_facts[of _ c])
    fix s1
    assume "processMoving c (aging_loop c PriorityList (readyPriorityList s) s) = Inr s1"
    then show ?thesis by (simp add: aging_def)
  qed
qed

lemma Run_IntOn:
  "nextThread \<noteq> currentThread s \<Longrightarrow> level s \<noteq> IntOff \<Longrightarrow>
   Run nextThread finishing s = Inl AssertionFailed"
  by (auto simp: Run_def)

lemma Run_dispatch:
  assumes "nextThread \<noteq> currentThread s" and "Run nextThread finishing s = Inr s'"
  shows "level s = IntOff"
    and "finishing \<Longrightarrow> toBeDestroyed s = None"
    and "\<not> stackOverflowed (threads s (currentThread s))"
    and "toBeDestroyed s' = (if finishing then Some (currentThread s) else toBeDestroyed s)"
    and "currentThread s' = nextThread"
    and "threads s' = (threads s)
           (currentThread s := (threads s (currentThread s))
              \<lparr>burstTime :=
                 binary64 (0.5 *
                   binary64 (real_of_int
                               (int32 (totalTicks s - startBurst (threads s (currentThread s))))
                             + burstTime (threads s (currentThread s))))\<rparr>,
            nextThread := (threads s nextThread)
              \<lparr>startBurst := totalTicks s, status := RUNNING\<rparr>)"
  using assms
  by (auto simp: Run_def Let_def setBurstTime_def setStartBurstTime_def setStatus_def cout_def
           split: if_splits)

lemma Run_total:
  assumes "nextThread \<noteq> currentThread s" and "level s = IntOff"
    and "finishing \<longrightarrow> toBeDestroyed s = None"
    and "\<not> stackOverflowed (threads s (currentThread s))"
  shows "\<exists>s'. Run nextThread finishing s = Inr s'"
  using assms by (auto simp: Run_def Let_def cout_def)

lemma Run_frame:
  assumes "Run nextThread finishing s = Inr s'"
  shows "level s' = level s" and "totalTicks s' = totalTicks s"
  using assms
  by (auto simp: Run_def Let_def setBurstTime_def setStartBurstTime_def setStatus_def cout_def
           split: if_splits)

lemma one_tick_bursts_estimate:
  assumes "a \<noteq> b"
  shows "k + n \<le> 53 \<Longrightarrow> currentThread s = a \<Longrightarrow> level s = IntOff \<Longrightarrow>
         \<not> stackOverflowed (threads s a) \<Longrightarrow> \<not> stackOverflowed (threads s b) \<Longrightarrow>
         startBurst (threads s a) = totalTicks s \<Longrightarrow>
         burstTime (threads s a) = 1 - 1 / 2 ^ k \<Longrightarrow>
         \<exists>s'. one_tick_bursts a b n s = Inr s' \<and> currentThread s' = a \<and>
              level s' = IntOff \<and> \<not> stackOverflowed (threads s' a) \<and>
              \<not> stackOverflowed (threads s' b) \<and>
              startBurst (threads s' a) = totalTicks s' \<and>
              totalTicks s' = totalTicks s + int n \<and>
              burstTime (threads s' a) = 1 - 1 / 2 ^ (k + n)"
proof (induction n arbitrary: s k)
  case 0
  then show ?case by simp
next
  case (Suc n)
  let ?s0 = "s\<lparr>totalTicks := totalTicks s + 1\<rparr>"
  have n0: "b \<noteq> currentThread ?s0" using assms Suc.prems by simp
  obtain s1 where r1: "Run b False ?s0 = Inr s1"
    using Run_total[OF n0, of False] Suc.prems by auto
  note d1 = Run_dispatch[OF n0 r1] Run_frame[OF r1]
  have k: "k \<le> 52" using Suc.prems(1) by simp
  have "int32 (totalTicks s + 1 - totalTicks s) = 1" by (simp add: int32_def)
  then have th1: "threads s1 = (threads s)
      (a := (threads s a)\<lparr>burstTime := 1 - 1 / 2 ^ Suc k\<rparr>,
       b := (threads s b)\<lparr>startBurst := totalTicks s + 1, status := RUNNING\<rparr>)"
    using d1(6) Suc.prems(2,6,7) binary64_one_tick[OF k] by simp
  have n1: "a \<noteq> currentThread s1" using assms d1(5) by simp
  have o1: "\<not> stackOverflowed (threads s1 (currentThread s1))"
    using assms Suc.prems(5) by (simp add: d1(5) th1)
  obtain s2 where r2: "Run a False s1 = Inr s2"
    using Run_total[OF n1, of False] d1(7) Suc.prems(3) o1 by auto
  note d2 = Run_dispatch[OF n1 r2] Run_frame[OF r2]
  have th2a: "threads s2 a = (threads s a)
      \<lparr>burstTime := 1 - 1 / 2 ^ Suc k, startBurst := totalTicks s + 1, status := RUNNING\<rparr>"
    using assms by (simp add: d2(6) d1(5,8) th1)
  have th2b: "stackOverflowed (threads s2 b) = stackOverflowed (threads s b)"
    using assms by (simp add: d2(6) d1(5) th1)
  have "\<exists>s'. one_tick_bursts a b n s2 = Inr s' \<and> currentThread s' = a \<and>
              level s' = IntOff \<and> \<not> stackOverflowed (threads s' a) \<and>
              \<not> stackOverflowed (threads s' b) \<and>
              startBurst (threads s' a) = totalTicks s' \<and>
              totalTicks s' = totalTicks s2 + int n \<and>
              burstTime (threads s' a) = 1 - 1 / 2 ^ (Suc k + n)"
    using Suc.prems(1,3,4,5) th2b
    by (intro Suc.IH) (simp_all add: d2(5,7,8) d1(7,8) th2a)
  then obtain s' where s': "one_tick_bursts a b n s2 = Inr s'" "currentThread s' = a"
      "level s' = IntOff" "\<not> stackOverflowed (threads s' a)"
      "\<not> stackOverflowed (threads s' b)" "startBurst (threads s' a) = totalTicks s'"
      "totalTicks s' = totalTicks s2 + int n"
      "burstTime (threads s' a) = 1 - 1 / 2 ^ (Suc k + n)"
    by blast
  have 1: "one_tick_bursts a b (Suc n) s = Inr s'"
    by (simp add: r1 r2 s'(1))
  have 2: "totalTicks s' = totalTicks s + int (Suc n)"
    by (simp add: s'(7) d2(8) d1(8))
  have 3: "burstTime (threads s' a) = 1 - 1 / 2 ^ (k + Suc n)"
    by (simp add: s'(8))
  show ?case
    using 1 2 3 s'(2-6) by blast
qed

section \<open>Sorted insertion and the SJF scenario\<close>

lemma sorted_SortedList_Insert:
  fixes k :: "tid \<Rightarrow> 'a::linorder"
  assumes "\<And>y. (cmp x y < 0) = (k x < k y)" and "sorted (map k xs)"
  shows "sorted (map k (SortedList_Insert cmp x xs))"
  using assms(2)
proof (induction xs)
  case Nil
  then show ?case by simp
next
  case (Cons y ys)
  show ?case
  proof (cases "cmp x y < 0")
    case True
    then have "k x < k y" using assms(1) by simp
    then show ?thesis using True Cons.prems by auto
  next
    case False
    then have "k y \<le> k x" using assms(1)[of y] by simp
    then show ?thesis using False Cons by (auto simp: set_SortedList_Insert)
  qed
qed

lemma compare_burst_key:
  "(compare_of SJFList s x y < 0) = (burstTime (threads s x) < burstTime (threads s y))"
  by (simp add: compare_by_burst_def)

lemma compare_priority_key:
  "(compare_of PriorityList s x y < 0) = (- priority (threads s x) < - priority (threads s y))"
  by (simp add: compare_by_priority_def)

lemma compare_of_cong:
  "(\<And>t. priority (threads s' t) = priority (threads s t)) \<Longrightarrow>
   (\<And>t. burstTime (threads s' t) = burstTime (threads s t)) \<Longrightarrow>
   compare_of l s' = compare_of l s"
  by (cases l) (auto simp: fun_eq_iff compare_by_priority_def compare_by_burst_def)

lemma foldl_Insert_sorted:
  "sorted (map (\<lambda>t. burstTime (threads s t)) q) \<Longrightarrow>
   sorted (map (\<lambda>t. burstTime (threads s t))
     (foldl (\<lambda>q t. SortedList_Insert (compare_of SJFList s) t q) q ts))"
proof (induction ts arbitrary: q)
  case Nil
  then show ?case by simp
next
  case (Cons x xs)
  have "sorted (map (\<lambda>t. burstTime (threads s t))
          (SortedList_Insert (compare_of SJFList s) x q))"
    by (rule sorted_SortedList_Insert[OF compare_burst_key Cons.prems])
  from Cons.IH[OF this] show ?case by (simp only: foldl_Cons)
qed

lemma foldl_Insert_mset:
  "mset (foldl (\<lambda>q t. SortedList_Insert cmp t q) q ts) = mset q + mset ts"
  by (induction ts arbitrary: q) (simp_all add: mset_SortedList_Insert)

lemma processMoving_loop_noop:
  "\<forall>t\<in>set ts. \<not> cond (priority (threads s t)) \<Longrightarrow> processMoving_loop c l cond ts s = Inr s"
  by (induction ts) simp_all

lemma ReadyToRun_each_SJF:
  assumes "level s = IntOff" and "\<forall>t\<in>set ts. priority (threads s t) \<ge> SJF_SCHD_THRESHHOLD c"
  shows "\<exists>s1. ReadyToRun_each c ts s = Inr s1 \<and> level s1 = IntOff \<and>
           readySJFList s1 =
             foldl (\<lambda>q t. SortedList_Insert (compare_of SJFList s) t q) (readySJFList s) ts \<and>
           readyRRList s1 = readyRRList s \<and> readyPriorityList s1 = readyPriorityList s \<and>
           (\<forall>t. priority (threads s1 t) = priority (threads s t) \<and>
                burstTime (threads s1 t) = burstTime (threads s t))"
  using assms
proof (induction ts arbitrary: s)
  case Nil
  then show ?case by simp
next
  case (Cons x xs)
  from ReadyToRun_total[OF Cons.prems(1), of c x] obtain s' where
    r: "ReadyToRun c x s = Inr s'" ..
  have b: "band c (priority (threads s x)) = SJFList"
    using Cons.prems(2) by (simp add: band_def)
  have f: "level s' = IntOff" using ReadyToRun_frame[OF r] by simp
  have th: "priority (threads s' t) = priority (threads s t) \<and>
            burstTime (threads s' t) = burstTime (threads s t)" for t
    by (simp add: ReadyToRun_threads[OF r])
  have cmp: "compare_of SJFList s' = compare_of SJFList s"
    by (rule compare_of_cong) (simp_all add: th)
  have l: "readySJFList s' = SortedList_Insert (compare_of SJFList s) x (readySJFList s)"
    "readyRRList s' = readyRRList s" "readyPriorityList s' = readyPriorityList s"
    using ReadyToRun_band[OF r b[symmetric]] ReadyToRun_other[OF r, of RRList]
      ReadyToRun_other[OF r, of PriorityList] b by simp_all
  have "\<forall>t\<in>set xs. priority (threads s' t) \<ge> SJF_SCHD_THRESHHOLD c"
    using Cons.prems(2) by (simp add: th)
  from Cons.IH[OF f this] obtain s1 where
    "ReadyToRun_each c xs s' = Inr s1" "level s1 = IntOff"
    "readySJFList s1 =
       foldl (\<lambda>q t. SortedList_Insert (compare_of SJFList s') t q) (readySJFList s') xs"
    "readyRRList s1 = readyRRList s'" "readyPriorityList s1 = readyPriorityList s'"
    "\<forall>t. priority (threads s1 t) = priority (threads s' t) \<and>
                burstTime (threads s1 t) = burstTime (threads s' t)"
    by blast
  then show ?case
    using r by (intro exI[of _ s1]) (simp add: cmp l th del: compare_of.simps)
qed

lemma boot_fields [simp]:
  "threads (boot lv ths) = ths" "currentThread (boot lv ths) = 0" "totalTicks (boot lv ths) = 0"
  "level (boot lv ths) = lv" "readyRRList (boot lv ths) = []"
  "readyPriorityList (boot lv ths) = []" "readySJFList (boot lv ths) = []"
  "toBeDestroyed (boot lv ths) = None" "console (boot lv ths) = []"
  by (simp_all add: boot_def)

lemma processMoving_noop:
  assumes "\<forall>l. \<forall>t\<in>set (getList l s). fits c l (priority (threads s t))"
  shows "processMoving c s = Inr s"
proof -
  have "\<forall>t\<in>set (readySJFList s). fits c SJFList (priority (threads s t))"
    using spec[OF assms, of SJFList] by simp
  then have 1: "processMoving_loop c SJFList (\<lambda>p. p < SJF_SCHD_THRESHHOLD c) (readySJFList s) s
                  = Inr s"
    by (intro processMoving_loop_noop) auto
  have "\<forall>t\<in>set (readyRRList s). fits c RRList (priority (threads s t))"
    using spec[OF assms, of RRList] by simp
  then have 2: "processMoving_loop c RRList
             (\<lambda>p. p < PRI_SCHD_THRESHHOLD c \<or> p \<ge> SJF_SCHD_THRESHHOLD c) (readyRRList s) s = Inr s"
    by (intro processMoving_loop_noop) auto
  have "\<forall>t\<in>set (readyPriorityList s). fits c PriorityList (priority (threads s t))"
    using spec[OF assms, of PriorityList] by simp
  then have 3: "processMoving_loop c PriorityList (\<lambda>p. p \<ge> PRI_SCHD_THRESHHOLD c)
             (readyPriorityList s) s = Inr s"
    by (intro processMoving_loop_noop) auto
  show ?thesis by (simp add: processMoving_def 1 2 3)
qed

lemma FindNextToRun_times_SJF:
  assumes "level s = IntOff" and "readyRRList s = []" and "readyPriorityList s = []"
    and "\<forall>t\<in>set (readySJFList s). priority (threads s t) \<ge> SJF_SCHD_THRESHHOLD c"
    and "readySJFList s = q"
  shows "FindNextToRun_times c (length q) s = Inr (map Some q, s\<lparr>readySJFList := []\<rparr>)"
  using assms
proof (induction q arbitrary: s)
  case Nil
  then show ?case by simp
next
  case (Cons x q)
  have "\<forall>l. \<forall>t\<in>set (getList l s). fits c l (priority (threads s t))"
  proof
    fix l show "\<forall>t\<in>set (getList l s). fits c l (priority (threads s t))"
      using Cons.prems by (cases l) auto
  qed
  then have a: "aging c PriorityList s = Inr s"
    using Cons.prems(3) by (simp add: aging_def processMoving_noop)
  have f: "FindNextToRun c s = Inr (Some x, s\<lparr>readySJFList := q\<rparr>)"
    using Cons.prems(1,5) by (simp add: FindNextToRun_def a IsEmpty_def)
  have "FindNextToRun_times c (length q) (s\<lparr>readySJFList := q\<rparr>) =
          Inr (map Some q, s\<lparr>readySJFList := q\<rparr>\<lparr>readySJFList := []\<rparr>)"
    using Cons.prems by (intro Cons.IH) auto
  then show ?case by (simp add: f)
qed

section \<open>The aging pass\<close>

lemma priority_ordered_cong:
  "(\<And>t. t \<in> set xs \<Longrightarrow> priority (threads s' t) = priority (threads s t)) \<Longrightarrow>
   priority_ordered s' xs = priority_ordered s xs"
  unfolding priority_ordered_def
  by (rule arg_cong[where f = sorted]) (simp cong: map_cong)

lemma aging_step:
  fixes c :: sched_consts and s :: state and x :: tid
  assumes "x \<in> set (readyPriorityList s)" and "distinct (readyPriorityList s)"
  defines "s4 \<equiv> aging_loop c PriorityList [x] s"
  assumes w: "waited c s x"
  shows "threads s4 = (threads s)(x := aged c s x)"
    and "mset (readyPriorityList s4) = mset (readyPriorityList s)"
    and "priority_ordered s (readyPriorityList s) \<Longrightarrow>
         priority_ordered s4 (readyPriorityList s4)"
    and "aging_loop c PriorityList (x # rest) s = aging_loop c PriorityList rest s4"
proof -
  let ?r = "remove1 x (readyPriorityList s)"
  define s3 where
    "s3 = (setStartReadyTime x (totalTicks s)
            (setPriority x (int32 (PRIORITY_AGING c + priority (threads s x))) s))
          \<lparr>readyPriorityList := ?r\<rparr>"
  have s4: "s4 = s3\<lparr>readyPriorityList := SortedList_Insert (compare_of PriorityList s3) x ?r\<rparr>"
    using w by (simp add: s4_def s3_def waited_def Let_def List_Remove_def del: compare_of.simps)
  have th3: "threads s3 = (threads s)(x := aged c s x)"
    by (simp add: s3_def aged_def)
  show th: "threads s4 = (threads s)(x := aged c s x)"
    by (simp add: s4 th3)
  have cmp: "compare_of PriorityList s3 = compare_of PriorityList s4"
    by (rule compare_of_threads) (simp add: th th3)
  have l: "readyPriorityList s4 = SortedList_Insert (compare_of PriorityList s4) x ?r"
    unfolding cmp[symmetric] by (simp add: s4 del: compare_of.simps)
  show "mset (readyPriorityList s4) = mset (readyPriorityList s)"
    using assms(1) by (simp add: l mset_SortedList_Insert del: compare_of.simps)
  show "aging_loop c PriorityList (x # rest) s = aging_loop c PriorityList rest s4"
    using w by (simp add: s4_def waited_def Let_def del: compare_of.simps)
  assume o: "priority_ordered s (readyPriorityList s)"
  have "x \<notin> set ?r" using assms(2) by simp
  then have "priority_ordered s4 ?r = priority_ordered s ?r"
    by (intro priority_ordered_cong) (auto simp: th)
  moreover have "priority_ordered s ?r"
    using o unfolding priority_ordered_def by (rule sorted_map_remove1)
  ultimately have "sorted (map (\<lambda>t. - priority (threads s4 t)) ?r)"
    by (simp add: priority_ordered_def)
  then have "sorted (map (\<lambda>t. - priority (threads s4 t))
               (SortedList_Insert (compare_of PriorityList s4) x ?r))"
    by (rule sorted_SortedList_Insert[OF compare_priority_key])
  then show "priority_ordered s4 (readyPriorityList s4)"
    unfolding priority_ordered_def l .
qed

lemma aging_loop_other_lists:
  "readySJFList (aging_loop c PriorityList ts s) = readySJFList s \<and>
   readyRRList (aging_loop c PriorityList ts s) = readyRRList s"
  by (induction ts arbitrary: s) (simp_all add: Let_def del: compare_of.simps)

lemma aging_loop_facts:
  assumes "distinct ts" and "set ts \<subseteq> set (readyPriorityList s)"
    and "distinct (readyPriorityList s)"
  shows "(\<forall>t. threads (aging_loop c PriorityList ts s) t =
              (if t \<in> set ts \<and> waited c s t then aged c s t else threads s t)) \<and>
         mset (readyPriorityList (aging_loop c PriorityList ts s)) = mset (readyPriorityList s) \<and>
         (priority_ordered s (readyPriorityList s) \<longrightarrow>
          priority_ordered (aging_loop c PriorityList ts s)
            (readyPriorityList (aging_loop c PriorityList ts s)))"
  using assms
proof (induction ts arbitrary: s)
  case Nil
  then show ?case by simp
next
  case (Cons x rest)
  show ?case
  proof (cases "waited c s x")
    case False
    then have e: "aging_loop c PriorityList (x # rest) s = aging_loop c PriorityList rest s"
      by (simp add: waited_def Let_def)
    have "(\<forall>t. threads (aging_loop c PriorityList rest s) t =
              (if t \<in> set rest \<and> waited c s t then aged c s t else threads s t)) \<and>
         mset (readyPriorityList (aging_loop c PriorityList rest s)) = mset (readyPriorityList s) \<and>
         (priority_ordered s (readyPriorityList s) \<longrightarrow>
          priority_ordered (aging_loop c PriorityList rest s)
            (readyPriorityList (aging_loop c PriorityList rest s)))"
      using Cons.prems by (intro Cons.IH) auto
    then show ?thesis
      unfolding e using False by auto
  next
    case True
    define s4 where "s4 = aging_loop c PriorityList [x] s"
    have xin: "x \<in> set (readyPriorityList s)" using Cons.prems(2) by simp
    note st = aging_step[OF xin Cons.prems(3) True, folded s4_def]
    have tk: "totalTicks s4 = totalTicks s"
      by (simp only: s4_def aging_loop_frame)
    have d4: "distinct (readyPriorityList s4)"
      using mset_eq_imp_distinct_iff[OF st(2)] Cons.prems(3) by simp
    have sub: "set rest \<subseteq> set (readyPriorityList s4)"
      using mset_eq_setD[OF st(2)] Cons.prems(2) by simp
    have dr: "distinct rest" "x \<notin> set rest" using Cons.prems(1) by simp_all
    have ih: "(\<forall>t. threads (aging_loop c PriorityList rest s4) t =
              (if t \<in> set rest \<and> waited c s4 t then aged c s4 t else threads s4 t)) \<and>
         mset (readyPriorityList (aging_loop c PriorityList rest s4)) = mset (readyPriorityList s4) \<and>
         (priority_ordered s4 (readyPriorityList s4) \<longrightarrow>
          priority_ordered (aging_loop c PriorityList rest s4)
            (readyPriorityList (aging_loop c PriorityList rest s4)))"
      by (rule Cons.IH[OF dr(1) sub d4])
    have same: "waited c s4 t = waited c s t \<and> aged c s4 t = aged c s t" if "t \<noteq> x" for t
      using that by (simp add: waited_def aged_def st(1) tk)
    have "threads (aging_loop c PriorityList rest s4) t =
              (if t \<in> set (x # rest) \<and> waited c s t then aged c s t else threads s t)" for t
    proof (cases "t = x")
      case True
      then show ?thesis using ih dr(2) \<open>waited c s x\<close> by (simp add: st(1))
    next
      case False
      then show ?thesis using ih same[OF False] by (simp add: st(1))
    qed
    then show ?thesis
      unfolding st(4) using ih st(2) st(3) by simp
  qed
qed

section \<open>The partition invariant\<close>

lemma all_ready_list: "(\<forall>l. P l) = (P SJFList \<and> P RRList \<and> P PriorityList)"
  by (metis ready_list.exhaust)

lemma queued_mset: "queued s = mset (readySJFList s @ readyRRList s @ readyPriorityList s)"
  by (simp add: queued_def)

lemma sched_inv_iff:
  "sched_inv c s \<longleftrightarrow>
     distinct (readySJFList s @ readyRRList s @ readyPriorityList s) \<and>
     (\<forall>l. \<forall>t\<in>set (getList l s). fits c l (priority (threads s t))) \<and>
     (\<forall>t. t \<in># queued s \<longrightarrow> status (threads s t) = READY)"
  by (auto simp: sched_inv_def all_ready_list queued_def)

lemma distinct_queued:
  assumes "queued s' = queued s"
  shows "distinct (readySJFList s' @ readyRRList s' @ readyPriorityList s') =
         distinct (readySJFList s @ readyRRList s @ readyPriorityList s)"
  by (rule mset_eq_imp_distinct_iff) (use assms in \<open>simp only: queued_mset\<close>)

lemma processMoving_priority_only:
  assumes "level s = IntOff"
    and "\<forall>t\<in>set (readySJFList s). fits c SJFList (priority (threads s t))"
    and "\<forall>t\<in>set (readyRRList s). fits c RRList (priority (threads s t))"
  shows "\<exists>s'. processMoving c s = Inr s' \<and>
           readyPriorityList s' =
             filter (\<lambda>t. fits c PriorityList (priority (threads s t))) (readyPriorityList s)"
proof -
  have 1: "processMoving_loop c SJFList (\<lambda>p. p < SJF_SCHD_THRESHHOLD c) (readySJFList s) s
                  = Inr s"
    using assms(2) by (intro processMoving_loop_noop) auto
  have 2: "processMoving_loop c RRList
             (\<lambda>p. p < PRI_SCHD_THRESHHOLD c \<or> p \<ge> SJF_SCHD_THRESHHOLD c) (readyRRList s) s = Inr s"
    using assms(3) by (intro processMoving_loop_noop) auto
  have c3: "(p \<ge> PRI_SCHD_THRESHHOLD c) = (\<not> fits c PriorityList p)" for p by auto
  have cnt: "count (mset (getList PriorityList s)) t = count (mset (readyPriorityList s)) t" for t
    by simp
  obtain s3 where
    "processMoving_loop c PriorityList (\<lambda>p. p \<ge> PRI_SCHD_THRESHHOLD c) (readyPriorityList s) s
       = Inr s3"
    "getList PriorityList s3 =
       filter (\<lambda>t. fits c PriorityList (priority (threads s t))) (getList PriorityList s)"
    using moving_loop_facts[OF assms(1) c3 cnt, of thesis] by blast
  then show ?thesis
    by (simp add: processMoving_def 1 2)
qed

lemma aging_facts:
  assumes "level s = IntOff" and "sched_inv c s"
  obtains s1 where
    "aging c PriorityList s = Inr s1"
    "level s1 = IntOff" "totalTicks s1 = totalTicks s"
    "currentThread s1 = currentThread s" "toBeDestroyed s1 = toBeDestroyed s"
    "\<And>t. t \<in> set (readyPriorityList s) \<Longrightarrow> waited c s t \<Longrightarrow>
          priority (threads s1 t) = int32 (PRIORITY_AGING c + priority (threads s t)) \<and>
          startReadyTime (threads s1 t) = totalTicks s"
    "\<And>t. \<not> (t \<in> set (readyPriorityList s) \<and> waited c s t) \<Longrightarrow> threads s1 t = threads s t"
    "\<And>t. t \<in> set (readyPriorityList s) \<Longrightarrow> \<not> waited c s t \<Longrightarrow>
          t \<in> set (readyPriorityList s1)"
    "queued s1 = queued s"
    "sched_inv c s1"
    "priority_ordered s (readyPriorityList s) \<Longrightarrow> priority_ordered s1 (readyPriorityList s1)"
proof -
  define sa where "sa = aging_loop c PriorityList (readyPriorityList s) s"
  note inv = assms(2)[unfolded sched_inv_iff]
  have dP: "distinct (readyPriorityList s)" using inv by simp
  note al = aging_loop_facts[OF dP subset_refl dP, of c, folded sa_def]
  have tha: "threads sa t =
      (if t \<in> set (readyPriorityList s) \<and> waited c s t then aged c s t else threads s t)" for t
    using al by blast
  have mP: "mset (readyPriorityList sa) = mset (readyPriorityList s)" using al by blast
  have oa: "priority_ordered sa (readyPriorityList sa)" if "priority_ordered s (readyPriorityList s)"
    using al that by blast
  have la: "readySJFList sa = readySJFList s" "readyRRList sa = readyRRList s"
    using aging_loop_other_lists[of c "readyPriorityList s" s] by (simp_all add: sa_def)
  have fa: "level sa = IntOff" "totalTicks sa = totalTicks s"
    "currentThread sa = currentThread s" "toBeDestroyed sa = toBeDestroyed s"
    using aging_loop_frame[of c PriorityList "readyPriorityList s" s] assms(1)
    by (simp_all add: sa_def)
  have sP: "set (readyPriorityList sa) = set (readyPriorityList s)"
    using mP by (rule mset_eq_setD)
  have qa: "queued sa = queued s" by (simp add: queued_def la mP)
  have fitS: "\<forall>t\<in>set (readySJFList sa). fits c SJFList (priority (threads sa t))"
  proof
    fix t assume t: "t \<in> set (readySJFList sa)"
    then have "t \<notin> set (readyPriorityList s)" using inv by (auto simp: la)
    then show "fits c SJFList (priority (threads sa t))"
      using t inv[THEN conjunct2, THEN conjunct1, rule_format, of t SJFList]
      by (simp add: tha la)
  qed
  have fitR: "\<forall>t\<in>set (readyRRList sa). fits c RRList (priority (threads sa t))"
  proof
    fix t assume t: "t \<in> set (readyRRList sa)"
    then have "t \<notin> set (readyPriorityList s)" using inv by (auto simp: la)
    then show "fits c RRList (priority (threads sa t))"
      using t inv[THEN conjunct2, THEN conjunct1, rule_format, of t RRList]
      by (simp add: tha la)
  qed
  from processMoving_priority_only[OF fa(1) fitS fitR] obtain s1 where
    pm: "processMoving c sa = Inr s1" and
    l1: "readyPriorityList s1 =
           filter (\<lambda>t. fits c PriorityList (priority (threads sa t))) (readyPriorityList sa)"
    by blast
  show ?thesis
  proof (rule processMoving_facts[OF fa(1), of c])
    fix s1'
    assume pm': "processMoving c sa = Inr s1'"
      and f1: "level s1' = IntOff" "totalTicks s1' = totalTicks sa"
        "currentThread s1' = currentThread sa" "toBeDestroyed s1' = toBeDestroyed sa"
      and th1: "\<And>t. threads s1' t = (if misplaced c sa t then restamp sa t else threads sa t)"
      and fit1: "\<And>l t. t \<in> set (getList l s1') \<Longrightarrow> fits c l (priority (threads sa t))"
      and stay1: "\<And>l t. t \<in> set (getList l sa) \<Longrightarrow> fits c l (priority (threads sa t)) \<Longrightarrow>
            t \<in> set (getList l s1')"
      and q1: "queued s1' = queued sa"
    have e: "s1' = s1" using pm pm' by simp
    have p1: "priority (threads s1 t) = priority (threads sa t)" for t
      using th1[of t] by (simp add: e)
    have r: "aging c PriorityList s = Inr s1"
      by (simp add: aging_def sa_def[symmetric] pm)
    have nm: "\<not> misplaced c sa t" if "\<not> (t \<in> set (readyPriorityList s) \<and> waited c s t)" for t
    proof -
      have "threads sa t = threads s t" using that by (auto simp: tha)
      then show ?thesis
        using inv[THEN conjunct2, THEN conjunct1, rule_format, of t SJFList]
          inv[THEN conjunct2, THEN conjunct1, rule_format, of t RRList]
          inv[THEN conjunct2, THEN conjunct1, rule_format, of t PriorityList]
        by (auto simp: misplaced_def la sP)
    qed
    have A: "priority (threads s1 t) = int32 (PRIORITY_AGING c + priority (threads s t)) \<and>
          startReadyTime (threads s1 t) = totalTicks s"
      if "t \<in> set (readyPriorityList s)" "waited c s t" for t
      using that th1[of t] by (auto simp: e tha aged_def restamp_def fa)
    have B: "threads s1 t = threads s t"
      if "\<not> (t \<in> set (readyPriorityList s) \<and> waited c s t)" for t
      using nm[OF that] that th1[of t] by (auto simp: e tha)
    have C: "t \<in> set (readyPriorityList s1)"
      if "t \<in> set (readyPriorityList s)" "\<not> waited c s t" for t
    proof -
      have "threads sa t = threads s t" using that by (auto simp: tha)
      then have "fits c PriorityList (priority (threads sa t))"
        using inv[THEN conjunct2, THEN conjunct1, rule_format, of t PriorityList] that(1)
        by simp
      then show ?thesis using that(1) by (simp add: l1 sP)
    qed
    have q: "queued s1 = queued s" using q1 qa by (simp add: e)
    have st: "status (threads s1 t) = READY" if "t \<in># queued s" for t
    proof -
      have "status (threads s t) = READY" using inv that by blast
      then show ?thesis using th1[of t] by (auto simp: e tha aged_def restamp_def)
    qed
    have I: "sched_inv c s1"
      unfolding sched_inv_iff
    proof (intro conjI allI impI ballI)
      show "distinct (readySJFList s1 @ readyRRList s1 @ readyPriorityList s1)"
        using distinct_queued[OF q] inv by simp
    next
      fix l t assume "t \<in> set (getList l s1)"
      then show "fits c l (priority (threads s1 t))"
        using fit1[of t l] by (simp add: e p1)
    next
      fix t assume "t \<in># queued s1"
      then show "status (threads s1 t) = READY" using st by (simp add: q)
    qed
    have O: "priority_ordered s1 (readyPriorityList s1)"
      if "priority_ordered s (readyPriorityList s)"
    proof -
      have "sorted (map (\<lambda>t. - priority (threads sa t)) (readyPriorityList sa))"
        using oa[OF that] by (simp add: priority_ordered_def)
      then have "sorted (map (\<lambda>t. - priority (threads sa t)) (readyPriorityList s1))"
        unfolding l1 by (rule sorted_filter)
      then show ?thesis by (simp add: priority_ordered_def p1)
    qed
    show ?thesis
      using that[OF r _ _ _ _ A B C q I O] f1 fa by (simp add: e)
  qed
qed

lemma fits_band:
  "PRI_SCHD_THRESHHOLD c \<le> SJF_SCHD_THRESHHOLD c \<Longrightarrow> fits c l p \<Longrightarrow> band c p = l"
  by (cases l) (auto simp: band_def)

lemma queued_member:
  "t \<in># queued s \<longleftrightarrow> (\<exists>l. t \<in> set (getList l s))"
  by (auto simp: queued_def all_ready_list intro: exI[of _ SJFList] exI[of _ RRList]
        exI[of _ PriorityList]) (metis getList.simps ready_list.exhaust)

lemma count_queued_distinct:
  assumes "distinct (readySJFList s @ readyRRList s @ readyPriorityList s)" and "t \<in># queued s"
  shows "count_list (readySJFList s @ readyRRList s @ readyPriorityList s) t = 1"
proof -
  have "t \<in> set (readySJFList s @ readyRRList s @ readyPriorityList s)"
    using assms(2) by (simp add: queued_def)
  moreover have "count (mset (readySJFList s @ readyRRList s @ readyPriorityList s)) t =
      (if t \<in> set (readySJFList s @ readyRRList s @ readyPriorityList s) then 1 else 0)"
    using assms(1) unfolding distinct_count_atmost_1 by blast
  ultimately show ?thesis by (simp only: count_mset if_True)
qed

lemma demo_waiting_fields:
  "level demo_waiting = IntOff" "totalTicks demo_waiting = 1500"
  "readySJFList demo_waiting = []" "readyRRList demo_waiting = []"
  "readyPriorityList demo_waiting = [5, 6]"
  "priority (threads demo_waiting 5) = 45" "startReadyTime (threads demo_waiting 5) = 0"
  "status (threads demo_waiting 5) = READY"
  "priority (threads demo_waiting 6) = 10" "startReadyTime (threads demo_waiting 6) = 1000"
  "status (threads demo_waiting 6) = READY"
  by (simp_all add: demo_waiting_def newThread_def)

lemma demo_waiting_inv:
  "sched_inv c0 demo_waiting" "priority_ordered demo_waiting (readyPriorityList demo_waiting)"
  by (simp_all add: sched_inv_def priority_ordered_def demo_waiting_fields c0_def)

lemma Run_queues:
  assumes "Run nextThread finishing s = Inr s'"
  shows "readySJFList s' = readySJFList s" "readyRRList s' = readyRRList s"
    "readyPriorityList s' = readyPriorityList s"
    "priority (threads s' t) = priority (threads s t)"
    "t \<noteq> nextThread \<Longrightarrow> status (threads s' t) = status (threads s t)"
  using assms
  by (auto simp: Run_def Let_def setBurstTime_def setStartBurstTime_def split: if_splits)

section \<open>The partition invariant on reachable states\<close>

lemma partition_inv_iff:
  assumes "PRI_SCHD_THRESHHOLD c \<le> SJF_SCHD_THRESHHOLD c"
  shows "partition_inv c P s \<longleftrightarrow>
     (\<forall>t. status (threads s t) = READY \<and> t \<notin> P \<longrightarrow> t \<in># queued s) \<and>
     (\<forall>l. \<forall>t\<in>set (getList l s). fits c l (priority (threads s t)))"
proof -
  have "ready_thread_placed c s t \<longleftrightarrow> (status (threads s t) = READY \<longrightarrow> t \<in># queued s)"
    if B: "\<forall>l. \<forall>t\<in>set (getList l s). fits c l (priority (threads s t))" for t
  proof (cases "status (threads s t) = READY")
    case False
    then show ?thesis by (simp add: ready_thread_placed_def)
  next
    case True
    have 1: "l = band c (priority (threads s t))" if "t \<in> set (getList l s)" for l
      using B that fits_band[OF assms] by blast
    show ?thesis
      using True 1 by (auto simp: ready_thread_placed_def queued_member)
  qed
  then show ?thesis by (auto simp: partition_inv_def)
qed

lemma partition_inv_cong:
  assumes "threads s' = threads s" and "\<And>l. getList l s' = getList l s"
  shows "partition_inv c P s' = partition_inv c P s"
  by (simp add: partition_inv_def ready_thread_placed_def assms)

lemma ReadyToRun_partition:
  assumes th: "PRI_SCHD_THRESHHOLD c \<le> SJF_SCHD_THRESHHOLD c"
    and r: "ReadyToRun c t s = Inr s'" and inv: "partition_inv c P s"
  shows "partition_inv c (P - {t}) s'"
proof -
  note i = inv[unfolded partition_inv_iff[OF th]]
  have B: "fits c l (priority (threads s' u))" if "u \<in> set (getList l s')" for l u
  proof -
    have "u \<in># mset (getList l s')" using that by simp
    then have "u \<in> set (getList l s) \<or> u = t \<and> l = band c (priority (threads s t))"
      unfolding ReadyToRun_mset[OF r] by (auto split: if_splits)
    then show ?thesis
      using i band_fits[of c "priority (threads s t)" l]
      by (auto simp: ReadyToRun_priority[OF r])
  qed
  have A: "u \<in># queued s'" if "status (threads s' u) = READY" "u \<notin> P - {t}" for u
  proof (cases "u = t")
    case True
    then show ?thesis by (simp add: ReadyToRun_queued[OF r])
  next
    case False
    then have "threads s' u = threads s u" by (simp add: ReadyToRun_threads[OF r])
    then have "u \<in># queued s" using that False i by auto
    then show ?thesis by (simp add: ReadyToRun_queued[OF r])
  qed
  show ?thesis
    unfolding partition_inv_iff[OF th] using A B by blast
qed

lemma processMoving_loop_IntOn:
  "level s \<noteq> IntOff \<Longrightarrow> processMoving_loop c l cond ts s = Inr s' \<Longrightarrow>
   s' = s \<and> (\<forall>t\<in>set ts. \<not> cond (priority (threads s t)))"
  by (induction ts) (auto simp: ReadyToRun_def split: if_splits)

lemma processMoving_IntOn:
  assumes "level s \<noteq> IntOff" and "processMoving c s = Inr s'"
  shows "s' = s" and "\<forall>l. \<forall>t\<in>set (getList l s). fits c l (priority (threads s t))"
proof -
  from assms(2) obtain s1 s2 where
    1: "processMoving_loop c SJFList (\<lambda>p. p < SJF_SCHD_THRESHHOLD c) (readySJFList s) s = Inr s1"
    and 2: "processMoving_loop c RRList
              (\<lambda>p. p < PRI_SCHD_THRESHHOLD c \<or> p \<ge> SJF_SCHD_THRESHHOLD c) (readyRRList s) s1
            = Inr s2"
    and 3: "processMoving_loop c PriorityList (\<lambda>p. p \<ge> PRI_SCHD_THRESHHOLD c)
              (readyPriorityList s) s2 = Inr s'"
    by (auto simp: processMoving_def Let_def split: sum.splits)
  note a = processMoving_loop_IntOn[OF assms(1) 1]
  have e1: "s1 = s" using a by simp
  note b = processMoving_loop_IntOn[OF assms(1) 2[unfolded e1]]
  have e2: "s2 = s" using b by simp
  note d = processMoving_loop_IntOn[OF assms(1) 3[unfolded e2]]
  show "s' = s" using d by simp
  show "\<forall>l. \<forall>t\<in>set (getList l s). fits c l (priority (threads s t))"
    using a b d by (auto simp: all_ready_list)
qed

lemma processMoving_partition:
  assumes th: "PRI_SCHD_THRESHHOLD c \<le> SJF_SCHD_THRESHHOLD c"
    and r: "processMoving c s = Inr s'"
    and A: "\<And>t. status (threads s t) = READY \<Longrightarrow> t \<notin> P \<Longrightarrow> t \<in># queued s"
  shows "partition_inv c P s'"
proof (cases "level s = IntOff")
  case True
  show ?thesis
  proof (rule processMoving_facts[OF True, of c])
    fix s1
    assume r1: "processMoving c s = Inr s1"
      and th1: "\<And>t. threads s1 t = (if misplaced c s t then restamp s t else threads s t)"
      and fit: "\<And>l t. t \<in> set (getList l s1) \<Longrightarrow> fits c l (priority (threads s t))"
      and q: "queued s1 = queued s"
    have e: "s1 = s'" using r r1 by simp
    have p: "priority (threads s' t) = priority (threads s t)" for t
      using th1[of t] by (simp add: e)
    have m: "t \<in># queued s" if "misplaced c s t" for t
      using that by (auto simp: misplaced_def queued_def)
    have "t \<in># queued s'" if "status (threads s' t) = READY" "t \<notin> P" for t
      using that th1[of t] m[of t] A[of t] q by (auto simp: e split: if_splits)
    then show ?thesis
      unfolding partition_inv_iff[OF th] using fit by (auto simp: e p)
  qed
next
  case False
  note n = processMoving_IntOn[OF False r]
  show ?thesis
    unfolding partition_inv_iff[OF th] using n A by auto
qed

lemma aging_loop_status:
  "status (threads (aging_loop c l ts s) t) = status (threads s t)"
  by (induction ts arbitrary: s) (simp_all add: Let_def del: compare_of.simps)

lemma aging_loop_mset:
  "set ts \<subseteq> set (getList l s) \<Longrightarrow>
   mset (getList l' (aging_loop c l ts s)) = mset (getList l' s)"
proof (induction ts arbitrary: s)
  case Nil
  then show ?case by simp
next
  case (Cons x rest)
  define s3 where
    "s3 = setList l (List_Remove x (getList l
            (setStartReadyTime x (totalTicks s)
              (setPriority x (int32 (PRIORITY_AGING c + priority (threads s x))) s))))
            (setStartReadyTime x (totalTicks s)
              (setPriority x (int32 (PRIORITY_AGING c + priority (threads s x))) s))"
  define s4 where
    "s4 = setList l (SortedList_Insert (compare_of l s3) x (getList l s3)) s3"
  have x: "x \<in> set (getList l s)" using Cons.prems by simp
  have g: "mset (getList l'' s4) = mset (getList l'' s)" for l''
    using x by (simp add: s4_def s3_def List_Remove_def mset_SortedList_Insert
                     del: compare_of.simps)
  have "set (getList l s4) = set (getList l s)"
    using g[of l] by (metis set_mset_mset)
  then have sub: "set rest \<subseteq> set (getList l s4)" using Cons.prems by simp
  show ?case
  proof (cases "AGING_TICKS c \<le> int32 (totalTicks s - startReadyTime (threads s x))")
    case True
    then have "aging_loop c l (x # rest) s = aging_loop c l rest s4"
      by (simp add: Let_def s4_def s3_def del: compare_of.simps)
    then show ?thesis using Cons.IH[OF sub] g by simp
  next
    case False
    then have "aging_loop c l (x # rest) s = aging_loop c l rest s"
      by (simp add: Let_def del: compare_of.simps)
    then show ?thesis using Cons.IH[of s] Cons.prems by simp
  qed
qed

lemma aging_partition:
  assumes th: "PRI_SCHD_THRESHHOLD c \<le> SJF_SCHD_THRESHHOLD c"
    and r: "aging c l s = Inr s'" and inv: "partition_inv c P s"
  shows "partition_inv c P s'"
proof -
  define sa where "sa = aging_loop c l (getList l s) s"
  have pm: "processMoving c sa = Inr s'"
    using r by (cases l) (simp_all add: aging_def sa_def)
  have q: "queued sa = queued s"
    unfolding queued_getList sa_def by (simp only: aging_loop_mset[OF subset_refl])
  note i = inv[unfolded partition_inv_iff[OF th]]
  have "t \<in># queued sa" if "status (threads sa t) = READY" "t \<notin> P" for t
  proof -
    have "status (threads s t) = READY"
      using that(1) by (simp add: sa_def aging_loop_status)
    then have "t \<in># queued s" using i that(2) by blast
    then show ?thesis by (simp only: q)
  qed
  then show ?thesis by (rule processMoving_partition[OF th pm])
qed

lemma pop_partition:
  assumes th: "PRI_SCHD_THRESHHOLD c \<le> SJF_SCHD_THRESHHOLD c"
    and inv: "partition_inv c P s" and ne: "getList l s \<noteq> []"
  shows "partition_inv c (insert (hd (getList l s)) P) (setList l (tl (getList l s)) s)"
proof -
  let ?s = "setList l (tl (getList l s)) s"
  note i = inv[unfolded partition_inv_iff[OF th]]
  have sub: "t \<in> set (getList l' s)" if "t \<in> set (getList l' ?s)" for t l'
    using that by (auto dest: list.set_sel(2)[OF ne] split: if_splits)
  have keep: "t \<in> set (getList l' ?s)"
    if "t \<in> set (getList l' s)" "t \<noteq> hd (getList l s)" for t l'
    using that ne by (cases "getList l s") auto
  have "t \<in># queued ?s" if "status (threads ?s t) = READY" "t \<notin> insert (hd (getList l s)) P"
    for t
  proof -
    have "t \<in># queued s" using that i by simp
    then obtain l' where "t \<in> set (getList l' s)" unfolding queued_member ..
    then have "t \<in> set (getList l' ?s)" using that(2) by (intro keep) simp_all
    then show ?thesis unfolding queued_member ..
  qed
  moreover have "fits c l' (priority (threads ?s t))" if "t \<in> set (getList l' ?s)" for t l'
    using sub[OF that] i by simp
  ultimately show ?thesis
    unfolding partition_inv_iff[OF th] by blast
qed

lemma FindNextToRun_partition:
  assumes th: "PRI_SCHD_THRESHHOLD c \<le> SJF_SCHD_THRESHHOLD c"
    and r: "FindNextToRun c s = Inr (x, s')" and inv: "partition_inv c P s"
  shows "partition_inv c (case x of None \<Rightarrow> P | Some t \<Rightarrow> insert t P) s'"
proof -
  from r obtain s1 where a: "aging c PriorityList s = Inr s1"
    by (auto simp: FindNextToRun_def split: if_splits sum.splits)
  note i1 = aging_partition[OF th a inv]
  note p = pop_partition[OF th i1]
  show ?thesis
    using r i1 p[of SJFList] p[of RRList] p[of PriorityList]
    by (auto simp: FindNextToRun_def a IsEmpty_def split: if_splits)
qed

lemma Run_partition:
  assumes th: "PRI_SCHD_THRESHHOLD c \<le> SJF_SCHD_THRESHHOLD c"
    and r: "Run n f s = Inr s'" and inv: "partition_inv c P s"
  shows "partition_inv c (if n = currentThread s then P else P - {n}) s'"
proof (cases "n = currentThread s")
  case True
  then have "s' = s" using r by (simp add: Run_def)
  then show ?thesis using True inv by simp
next
  case False
  note i = inv[unfolded partition_inv_iff[OF th]]
  note q = Run_queues[OF r]
  have g: "getList l s' = getList l s" for l by (cases l) (simp_all add: q)
  have st: "status (threads s' n) = RUNNING"
    using Run_dispatch(6)[OF False r] by simp
  have "t \<in># queued s'" if "status (threads s' t) = READY" "t \<notin> P - {n}" for t
  proof -
    have "t \<noteq> n" using that(1) st by auto
    then have "t \<in># queued s" using that i q(5)[of t] by simp
    then show ?thesis by (simp add: queued_def q)
  qed
  then show ?thesis
    unfolding partition_inv_iff[OF th] using False i by (auto simp: g q(4))
qed

lemma Run_resumed_frame:
  assumes "Run_resumed t s = Inr s'"
  shows "threads s' = threads s" and "getList l s' = getList l s"
  using assms
  by (auto simp: Run_resumed_def CheckToBeDestroyed_def Let_def cout_def
           split: if_splits option.splits; cases l; simp)+

lemma CheckToBeDestroyed_frame:
  "threads (CheckToBeDestroyed s) = threads s"
  "getList l (CheckToBeDestroyed s) = getList l s"
  by (cases l; simp add: CheckToBeDestroyed_def cout_def split: option.splits)+

lemma getList_clock:
  "getList l (s\<lparr>totalTicks := n\<rparr>) = getList l s"
  "getList l (s\<lparr>level := lv\<rparr>) = getList l s"
  by (cases l; simp)+

lemma call_step_partition:
  assumes th: "PRI_SCHD_THRESHHOLD c \<le> SJF_SCHD_THRESHHOLD c"
    and r: "call_step c k (P, s) = Inr (P', s')" and inv: "partition_inv c P s"
  shows "partition_inv c P' s'"
proof (cases k)
  case (ReadyToRun_call t)
  then show ?thesis
    using r ReadyToRun_partition[OF th _ inv] by (auto split: sum.splits)
next
  case processMoving_call
  note i = inv[unfolded partition_inv_iff[OF th]]
  from processMoving_call r have "processMoving c s = Inr s'" and "P' = P"
    by (auto split: sum.splits)
  then show ?thesis using processMoving_partition[OF th, of s s' P] i by simp
next
  case (aging_call l)
  then show ?thesis
    using r aging_partition[OF th _ inv] by (auto split: sum.splits)
next
  case FindNextToRun_call
  then show ?thesis
    using r FindNextToRun_partition[OF th _ inv]
    by (fastforce split: sum.splits option.splits)
next
  case (Run_call n f)
  then show ?thesis
    using r Run_partition[OF th _ inv, of n f] by (auto split: sum.splits)
next
  case (Run_resumed_call t)
  with r have rr: "Run_resumed t s = Inr s'" and "P' = P" by (auto split: sum.splits)
  then show ?thesis
    using inv partition_inv_cong[OF Run_resumed_frame(1)[OF rr] Run_resumed_frame(2)[OF rr]]
    by simp
next
  case CheckToBeDestroyed_call
  then show ?thesis
    using r inv partition_inv_cong[OF CheckToBeDestroyed_frame(1) CheckToBeDestroyed_frame(2)]
    by auto
next
  case (tick_call m)
  then show ?thesis
    using r inv
      partition_inv_cong[of "s\<lparr>totalTicks := totalTicks s + int m\<rparr>" s c P,
        OF _ getList_clock(1)]
    by auto
next
  case (setLevel_call lv)
  then show ?thesis
    using r inv partition_inv_cong[of "s\<lparr>level := lv\<rparr>" s c P, OF _ getList_clock(2)]
    by auto
qed

lemma calls_partition:
  assumes th: "PRI_SCHD_THRESHHOLD c \<le> SJF_SCHD_THRESHHOLD c"
  shows "calls c ks (P, s) = Inr (P', s') \<Longrightarrow> partition_inv c P s \<Longrightarrow> partition_inv c P' s'"
proof (induction ks arbitrary: P s)
  case Nil
  then show ?case by simp
next
  case (Cons k ks)
  from Cons.prems(1) obtain P1 s1 where
    1: "call_step c k (P, s) = Inr (P1, s1)" and 2: "calls c ks (P1, s1) = Inr (P', s')"
    by (auto split: sum.splits)
  show ?case
    by (rule Cons.IH[OF 2 call_step_partition[OF th 1 Cons.prems(2)]])
qed

lemma Scheduler_new_partition:
  "\<forall>t. status (threads s t) \<noteq> READY \<Longrightarrow> partition_inv c {} (Scheduler_new s)"
  by (simp add: partition_inv_def ready_thread_placed_def Scheduler_new_def all_ready_list)

lemma Scheduler_new_boot: "Scheduler_new (boot lv ths) = boot lv ths"
  by (simp add: Scheduler_new_def boot_def)

section \<open>The claims\<close>

text \<open>
  C1, as the code has it. Take a scheduler as its constructor leaves it, with no thread
  marked ready, and let any sequence of calls act on it: \<^verbatim>\<open>ReadyToRun\<close>,
  \<^verbatim>\<open>processMoving\<close>, \<^verbatim>\<open>aging\<close>, \<^verbatim>\<open>FindNextToRun\<close>, \<^verbatim>\<open>Run\<close> and its continuation,
  \<^verbatim>\<open>CheckToBeDestroyed\<close>, with any arguments, and ticks of the clock and changes of the
  interrupt level in between. In the state reached, every thread marked ready is in
  exactly one of the three ready queues, the one its priority selects, except the
  threads that \<^verbatim>\<open>FindNextToRun\<close> has removed and returned and that have since been
  neither dispatched by \<^verbatim>\<open>Run\<close> nor admitted again by \<^verbatim>\<open>ReadyToRun\<close>; and every entry
  of a queue has a priority that fits the queue. Each single call preserves this
  invariant, from any state that satisfies it. The thresholds are ordered as the spec
  requires. A thread may be referenced more than once inside its queue (C10); the
  iteration of \<^verbatim>\<open>processMoving\<close> and \<^verbatim>\<open>aging\<close> is the snapshot iteration of the spec.
\<close>

theorem partition_invariant_reachable:
  assumes "PRI_SCHD_THRESHHOLD c \<le> SJF_SCHD_THRESHHOLD c"
  shows "((\<forall>t. status (threads s0 t) \<noteq> READY) \<and>
          calls c ks ({}, Scheduler_new s0) = Inr (selected, s) \<longrightarrow>
            partition_inv c selected s) \<and>
         (partition_inv c selected s \<and> call_step c k (selected, s) = Inr (selected', s') \<longrightarrow>
            partition_inv c selected' s')"
proof (intro conjI impI)
  assume "(\<forall>t. status (threads s0 t) \<noteq> READY) \<and>
          calls c ks ({}, Scheduler_new s0) = Inr (selected, s)"
  then show "partition_inv c selected s"
    using calls_partition[OF assms _ Scheduler_new_partition] by blast
next
  assume "partition_inv c selected s \<and> call_step c k (selected, s) = Inr (selected', s')"
  then show "partition_inv c selected' s'"
    using call_step_partition[OF assms] by blast
qed

text \<open>
  An instance: threads 4, 5 and 2 are admitted to the Round-Robin, Priority and SJF
  queues, and three ticks later \<^verbatim>\<open>FindNextToRun\<close> selects thread 2. Thread 2 is then
  marked ready and in no queue, and the invariant holds with thread 2 excepted; the
  call of \<^verbatim>\<open>Run\<close> that dispatches thread 2 preserves it, and it then holds with no
  exception.
\<close>

theorem partition_invariant_reachable_witness:
  "PRI_SCHD_THRESHHOLD c0 \<le> SJF_SCHD_THRESHHOLD c0 \<and>
   (\<forall>t. status (threads (boot IntOff demo_threads) t) \<noteq> READY) \<and>
   (\<exists>s1 s2.
      calls c0 [ReadyToRun_call 4, ReadyToRun_call 5, ReadyToRun_call 2, tick_call 3,
                FindNextToRun_call]
        ({}, Scheduler_new (boot IntOff demo_threads)) = Inr ({2}, s1) \<and>
      readySJFList s1 = [] \<and> readyRRList s1 = [4] \<and> readyPriorityList s1 = [5] \<and>
      status (threads s1 2) = READY \<and> status (threads s1 4) = READY \<and>
      status (threads s1 5) = READY \<and> partition_inv c0 {2} s1 \<and>
      call_step c0 (Run_call 2 False) ({2}, s1) = Inr ({}, s2) \<and>
      calls c0 [ReadyToRun_call 4, ReadyToRun_call 5, ReadyToRun_call 2, tick_call 3,
                FindNextToRun_call, Run_call 2 False]
        ({}, Scheduler_new (boot IntOff demo_threads)) = Inr ({}, s2) \<and>
      readySJFList s2 = [] \<and> readyRRList s2 = [4] \<and> readyPriorityList s2 = [5] \<and>
      status (threads s2 2) = RUNNING \<and> status (threads s2 4) = READY \<and>
      status (threads s2 5) = READY \<and> partition_inv c0 {} s2)"
proof -
  let ?b = "boot IntOff demo_threads"
  have th: "PRI_SCHD_THRESHHOLD c0 \<le> SJF_SCHD_THRESHHOLD c0" by (simp add: c0_def)
  have nr: "\<forall>t. status (threads ?b t) \<noteq> READY"
    by (simp add: boot_def demo_threads_def newThread_def)
  have p: "priority (demo_threads 4) = 60" "priority (demo_threads 5) = 10"
    "priority (demo_threads 2) = 130"
    by (simp_all add: demo_threads_def newThread_def)
  obtain a where ra: "ReadyToRun c0 4 ?b = Inr a"
    using ReadyToRun_total[of ?b c0 4] by auto
  have ba: "RRList = band c0 (priority (threads ?b 4))" by (simp add: p band_def c0_def)
  have la: "readyRRList a = [4]" "readySJFList a = []" "readyPriorityList a = []"
    using ReadyToRun_band[OF ra ba] ReadyToRun_other[OF ra, of SJFList]
      ReadyToRun_other[OF ra, of PriorityList] ba by simp_all
  have ta: "threads a = (threads ?b)(4 := (threads ?b 4)\<lparr>status := READY, startReadyTime := 0\<rparr>)"
    using ReadyToRun_threads[OF ra] by simp
  have fa: "level a = IntOff" "totalTicks a = 0" "currentThread a = 0"
    using ReadyToRun_frame[OF ra] by simp_all
  obtain b where rb: "ReadyToRun c0 5 a = Inr b"
    using ReadyToRun_total[OF fa(1), of c0 5] by auto
  have bb: "PriorityList = band c0 (priority (threads a 5))"
    by (simp add: ta p band_def c0_def)
  have lb: "readyRRList b = [4]" "readySJFList b = []" "readyPriorityList b = [5]"
    using ReadyToRun_band[OF rb bb] ReadyToRun_other[OF rb, of SJFList]
      ReadyToRun_other[OF rb, of RRList] bb la by simp_all
  have tb: "threads b = (threads a)(5 := (threads a 5)\<lparr>status := READY, startReadyTime := 0\<rparr>)"
    using ReadyToRun_threads[OF rb] fa by simp
  have fb: "level b = IntOff" "totalTicks b = 0" "currentThread b = 0"
    using ReadyToRun_frame[OF rb] fa by simp_all
  obtain d where rd: "ReadyToRun c0 2 b = Inr d"
    using ReadyToRun_total[OF fb(1), of c0 2] by auto
  have bd: "SJFList = band c0 (priority (threads b 2))"
    by (simp add: tb ta p band_def c0_def)
  have ld: "readyRRList d = [4]" "readySJFList d = [2]" "readyPriorityList d = [5]"
    using ReadyToRun_band[OF rd bd] ReadyToRun_other[OF rd, of PriorityList]
      ReadyToRun_other[OF rd, of RRList] bd lb by simp_all
  have td: "threads d = (threads b)(2 := (threads b 2)\<lparr>status := READY, startReadyTime := 0\<rparr>)"
    using ReadyToRun_threads[OF rd] fb by simp
  have fd: "level d = IntOff" "totalTicks d = 0" "currentThread d = 0"
    using ReadyToRun_frame[OF rd] fb by simp_all
  define e where "e = d\<lparr>totalTicks := totalTicks d + 3\<rparr>"
  have le: "readyRRList e = [4]" "readySJFList e = [2]" "readyPriorityList e = [5]"
    and te: "threads e = threads d"
    and fe: "level e = IntOff" "totalTicks e = 3" "currentThread e = 0"
    by (simp_all add: e_def ld fd)
  have pe: "priority (threads e 2) = 130" "priority (threads e 4) = 60"
    "priority (threads e 5) = 10" "startReadyTime (threads e 5) = 0"
    "status (threads e 2) = READY" "status (threads e 4) = READY"
    "status (threads e 5) = READY" "\<not> stackOverflowed (threads e 0)"
    by (simp_all add: te td tb ta p boot_def) (simp_all add: demo_threads_def newThread_def)
  have "int32 (3 - 0) < 1500" by (simp add: int32_def)
  then have al: "aging_loop c0 PriorityList (readyPriorityList e) e = e"
    by (simp add: le fe pe c0_def Let_def del: compare_of.simps)
  have "\<forall>l. \<forall>t\<in>set (getList l e). fits c0 l (priority (threads e t))"
    by (simp add: all_ready_list le pe c0_def)
  then have ag: "aging c0 PriorityList e = Inr e"
    by (simp add: aging_def al processMoving_noop)
  define g where "g = e\<lparr>readySJFList := tl (readySJFList e)\<rparr>"
  have f: "FindNextToRun c0 e = Inr (Some 2, g)"
    by (simp add: FindNextToRun_def fe ag IsEmpty_def le g_def)
  have lg: "readyRRList g = [4]" "readySJFList g = []" "readyPriorityList g = [5]"
    and tg: "threads g = threads e"
    and fg: "level g = IntOff" "currentThread g = 0" "toBeDestroyed g = toBeDestroyed e"
    by (simp_all add: g_def le fe)
  have ng: "2 \<noteq> currentThread g" by (simp add: fg)
  obtain h where rh: "Run 2 False g = Inr h"
    using Run_total[OF ng, of False] fg pe by (auto simp: tg)
  note qh = Run_queues[OF rh]
  have sh: "status (threads h 2) = RUNNING" "status (threads h 4) = READY"
    "status (threads h 5) = READY"
    using Run_dispatch(6)[OF ng rh] qh(5)[of 4] qh(5)[of 5] pe by (simp_all add: tg)
  have c1: "calls c0 [ReadyToRun_call 4, ReadyToRun_call 5, ReadyToRun_call 2, tick_call 3,
                FindNextToRun_call] ({}, Scheduler_new ?b) = Inr ({2}, g)"
    by (simp add: Scheduler_new_boot ra rb rd f[unfolded e_def])
  have c2: "calls c0 [ReadyToRun_call 4, ReadyToRun_call 5, ReadyToRun_call 2, tick_call 3,
                FindNextToRun_call, Run_call 2 False] ({}, Scheduler_new ?b) = Inr ({}, h)"
    using ng by (simp add: Scheduler_new_boot ra rb rd f[unfolded e_def] rh)
  have c3: "call_step c0 (Run_call 2 False) ({2}, g) = Inr ({}, h)"
    using ng by (simp add: rh)
  have i1: "partition_inv c0 {2} g"
    using partition_invariant_reachable[OF th, of ?b "[ReadyToRun_call 4, ReadyToRun_call 5,
      ReadyToRun_call 2, tick_call 3, FindNextToRun_call]" "{2}" g] nr c1
    by blast
  have i2: "partition_inv c0 {} h"
    using partition_invariant_reachable[OF th, of _ _ "{2}" g "Run_call 2 False" "{}" h] i1 c3
    by blast
  show ?thesis
    using th nr c1 c2 c3 i1 i2 lg sh pe(5-7) qh(1-3)
    by (intro conjI exI[of _ g] exI[of _ h]) (simp_all only: tg, simp_all)
qed

text \<open>
  The claim C1 as stated speaks of every thread marked ready, and fails:
  \<^verbatim>\<open>FindNextToRun\<close> removes the selected thread from its queue and leaves its status
  \<open>READY\<close> (it is \<^verbatim>\<open>Run\<close> that marks it running). After admitting thread 4 to a new
  scheduler and selecting it, a state reached by two calls, thread 4 is marked ready
  and is in no queue.
\<close>

theorem partition_invariant_counterexample:
  "\<not> isl demo_admitted \<and> ready_thread_placed c0 (projr demo_admitted) 4 \<and>
   \<not> isl demo_selected \<and> fst (projr demo_selected) = Some 4 \<and>
   status (threads (snd (projr demo_selected)) 4) = READY \<and>
   readySJFList (snd (projr demo_selected)) = [] \<and>
   readyRRList (snd (projr demo_selected)) = [] \<and>
   readyPriorityList (snd (projr demo_selected)) = [] \<and>
   \<not> ready_thread_placed c0 (snd (projr demo_selected)) 4 \<and>
   calls c0 [ReadyToRun_call 4, FindNextToRun_call]
     ({}, Scheduler_new (boot IntOff demo_threads)) = Inr ({4}, snd (projr demo_selected))"
proof -
  let ?b = "boot IntOff demo_threads"
  have p4: "priority (demo_threads 4) = 60" by (simp add: demo_threads_def newThread_def)
  have b4: "band c0 (priority (threads ?b 4)) = RRList" by (simp add: p4 band_def c0_def)
  from ReadyToRun_total[of ?b c0 4] obtain s1 where r: "ReadyToRun c0 4 ?b = Inr s1"
    by auto
  have l: "readyRRList s1 = [4]" "readySJFList s1 = []" "readyPriorityList s1 = []"
    using ReadyToRun_band[OF r b4[symmetric]] ReadyToRun_other[OF r, of SJFList]
      ReadyToRun_other[OF r, of PriorityList] b4 by simp_all
  have th: "status (threads s1 4) = READY" "priority (threads s1 4) = 60"
    using ReadyToRun_threads[OF r] p4 by simp_all
  have lv: "level s1 = IntOff" using ReadyToRun_frame[OF r] by simp
  have a: "demo_admitted = Inr s1" by (simp add: demo_admitted_def r)
  have 1: "ready_thread_placed c0 s1 4"
    by (simp add: ready_thread_placed_def all_ready_list l th band_def c0_def)
  have "\<forall>l. \<forall>t\<in>set (getList l s1). fits c0 l (priority (threads s1 t))"
    by (simp add: all_ready_list l th c0_def)
  then have "aging c0 PriorityList s1 = Inr s1"
    by (simp add: aging_def l processMoving_noop)
  then have f: "FindNextToRun c0 s1 = Inr (Some 4, s1\<lparr>readyRRList := []\<rparr>)"
    by (simp add: FindNextToRun_def lv IsEmpty_def l)
  have s: "demo_selected = Inr (Some 4, s1\<lparr>readyRRList := []\<rparr>)"
    by (simp add: demo_selected_def a f)
  have 2: "\<not> ready_thread_placed c0 (s1\<lparr>readyRRList := []\<rparr>) 4"
    by (simp add: ready_thread_placed_def all_ready_list l th band_def c0_def)
  have 3: "calls c0 [ReadyToRun_call 4, FindNextToRun_call] ({}, Scheduler_new ?b) =
           Inr ({4}, s1\<lparr>readyRRList := []\<rparr>)"
    by (simp add: Scheduler_new_boot r f)
  show ?thesis
    using 1 2 3 by (simp add: a s l th)
qed

text \<open>
  C2. With interrupts disabled, \<^verbatim>\<open>FindNextToRun\<close> first runs \<^verbatim>\<open>aging\<close> on the Priority
  queue, which always returns, and then selects with strict band priority on the queues
  as aging left them: the front of the SJF queue if that queue is non-empty, else the
  front of the Round-Robin queue, else the front of the Priority queue, removing the
  selected thread from its queue; with all three queues empty it returns no thread.
\<close>

theorem FindNextToRun_selection:
  assumes "level s = IntOff"
  shows "\<exists>s1. aging c PriorityList s = Inr s1 \<and>
           FindNextToRun c s =
             (if readySJFList s1 \<noteq> [] then
                Inr (Some (hd (readySJFList s1)), s1\<lparr>readySJFList := tl (readySJFList s1)\<rparr>)
              else if readyRRList s1 \<noteq> [] then
                Inr (Some (hd (readyRRList s1)), s1\<lparr>readyRRList := tl (readyRRList s1)\<rparr>)
              else if readyPriorityList s1 \<noteq> [] then
                Inr (Some (hd (readyPriorityList s1)),
                     s1\<lparr>readyPriorityList := tl (readyPriorityList s1)\<rparr>)
              else Inr (None, s1))"
proof -
  from aging_total[OF assms, of c] obtain s1 where a: "aging c PriorityList s = Inr s1" ..
  show ?thesis
    using assms a by (simp add: FindNextToRun_def IsEmpty_def)
qed

text \<open>An instance: on a state whose queues are all empty the call returns no thread.\<close>

theorem FindNextToRun_selection_witness:
  "level (boot IntOff demo_threads) = IntOff \<and>
   FindNextToRun c0 (boot IntOff demo_threads) = Inr (None, boot IntOff demo_threads)"
  using FindNextToRun_selection[of "boot IntOff demo_threads" c0]
  by (auto simp: boot_def aging_def processMoving_def)

text \<open>
  C3. With interrupts disabled, \<^verbatim>\<open>ReadyToRun\<close> sets the thread's status to \<open>READY\<close>,
  stamps \<open>startReadyTime\<close> with the current tick, changes no other thread object, and
  inserts the thread into exactly one queue chosen by its priority: the SJF queue from
  \<open>SJF_SCHD_THRESHHOLD\<close> on, else the Round-Robin queue from \<open>PRI_SCHD_THRESHHOLD\<close>
  on, else the Priority queue. The other two queues are unchanged.
\<close>

theorem ReadyToRun_admission:
  assumes "level s = IntOff"
  shows "\<exists>s'. ReadyToRun c thread s = Inr s' \<and>
           threads s' = (threads s)(thread := (threads s thread)
                           \<lparr>status := READY, startReadyTime := totalTicks s\<rparr>) \<and>
           (if priority (threads s thread) \<ge> SJF_SCHD_THRESHHOLD c then
              readySJFList s' =
                SortedList_Insert (compare_of SJFList s) thread (readySJFList s) \<and>
              mset (readySJFList s') = add_mset thread (mset (readySJFList s)) \<and>
              readyRRList s' = readyRRList s \<and> readyPriorityList s' = readyPriorityList s
            else if priority (threads s thread) \<ge> PRI_SCHD_THRESHHOLD c then
              readyRRList s' = readyRRList s @ [thread] \<and>
              readySJFList s' = readySJFList s \<and> readyPriorityList s' = readyPriorityList s
            else
              readyPriorityList s' =
                SortedList_Insert (compare_of PriorityList s) thread (readyPriorityList s) \<and>
              mset (readyPriorityList s') = add_mset thread (mset (readyPriorityList s)) \<and>
              readySJFList s' = readySJFList s \<and> readyRRList s' = readyRRList s)"
proof -
  from ReadyToRun_total[OF assms, of c thread] obtain s' where
    r: "ReadyToRun c thread s = Inr s'" ..
  note b = ReadyToRun_band[OF r refl] and o = ReadyToRun_other[OF r]
  have "readySJFList s' =
          SortedList_Insert (compare_of SJFList s) thread (readySJFList s) \<and>
        mset (readySJFList s') = add_mset thread (mset (readySJFList s)) \<and>
        readyRRList s' = readyRRList s \<and> readyPriorityList s' = readyPriorityList s"
    if "priority (threads s thread) \<ge> SJF_SCHD_THRESHHOLD c"
    using that b o[of RRList] o[of PriorityList]
    by (simp add: band_def mset_SortedList_Insert)
  moreover have "readyRRList s' = readyRRList s @ [thread] \<and>
        readySJFList s' = readySJFList s \<and> readyPriorityList s' = readyPriorityList s"
    if "\<not> priority (threads s thread) \<ge> SJF_SCHD_THRESHHOLD c"
       "priority (threads s thread) \<ge> PRI_SCHD_THRESHHOLD c"
    using that b o[of SJFList] o[of PriorityList] by (simp add: band_def)
  moreover have "readyPriorityList s' =
          SortedList_Insert (compare_of PriorityList s) thread (readyPriorityList s) \<and>
        mset (readyPriorityList s') = add_mset thread (mset (readyPriorityList s)) \<and>
        readySJFList s' = readySJFList s \<and> readyRRList s' = readyRRList s"
    if "\<not> priority (threads s thread) \<ge> SJF_SCHD_THRESHHOLD c"
       "\<not> priority (threads s thread) \<ge> PRI_SCHD_THRESHHOLD c"
    using that b o[of SJFList] o[of RRList]
    by (simp add: band_def mset_SortedList_Insert)
  ultimately have "if priority (threads s thread) \<ge> SJF_SCHD_THRESHHOLD c then
              readySJFList s' =
                SortedList_Insert (compare_of SJFList s) thread (readySJFList s) \<and>
              mset (readySJFList s') = add_mset thread (mset (readySJFList s)) \<and>
              readyRRList s' = readyRRList s \<and> readyPriorityList s' = readyPriorityList s
            else if priority (threads s thread) \<ge> PRI_SCHD_THRESHHOLD c then
              readyRRList s' = readyRRList s @ [thread] \<and>
              readySJFList s' = readySJFList s \<and> readyPriorityList s' = readyPriorityList s
            else
              readyPriorityList s' =
                SortedList_Insert (compare_of PriorityList s) thread (readyPriorityList s) \<and>
              mset (readyPriorityList s') = add_mset thread (mset (readyPriorityList s)) \<and>
              readySJFList s' = readySJFList s \<and> readyRRList s' = readyRRList s"
    by (simp only: if_split) blast
  then show ?thesis
    using r ReadyToRun_threads[OF r] by blast
qed

text \<open>An instance: thread 4 (priority 60) enters the Round-Robin queue.\<close>

theorem ReadyToRun_admission_witness:
  "level (boot IntOff demo_threads) = IntOff \<and>
   (\<exists>s'. ReadyToRun c0 4 (boot IntOff demo_threads) = Inr s' \<and>
         status (threads s' 4) = READY \<and> readyRRList s' = [4] \<and>
         readySJFList s' = [] \<and> readyPriorityList s' = [])"
  using ReadyToRun_admission[of "boot IntOff demo_threads" c0 4]
  by (auto simp: boot_def demo_threads_def newThread_def c0_def)

text \<open>
  C4. In a state whose queues are in good order (\<open>sched_inv\<close>), with the Priority queue
  in descending order of priority and the thresholds ordered as the spec requires, take a
  thread of the Priority queue at the start of \<^verbatim>\<open>FindNextToRun\<close>, such that neither of
  the two \<^verbatim>\<open>int\<close> operations of the pass on it overflows: the wait time (the current
  tick minus \<open>startReadyTime\<close>) and the priority plus \<open>PRIORITY_AGING\<close> are 32-bit
  values, as they are whenever the thread was stamped at a tick of the past and its
  priority is not within \<open>PRIORITY_AGING\<close> of the largest \<^verbatim>\<open>int\<close>. If it has waited at
  least \<open>AGING_TICKS\<close>, the aging pass raises its priority by exactly
  \<open>PRIORITY_AGING\<close>, resets \<open>startReadyTime\<close> to the current tick, and leaves it at
  exactly one queue position, in the queue of its new band. If it has waited less, the
  thread object is unchanged and it stays in the Priority queue. The Priority queue is
  again in descending order of priority, and the selection of \<^verbatim>\<open>FindNextToRun\<close> is made
  on the queues as the pass left them.
\<close>

theorem aging_boost:
  assumes "level s = IntOff" and "sched_inv c s"
    and "priority_ordered s (readyPriorityList s)"
    and "PRI_SCHD_THRESHHOLD c \<le> SJF_SCHD_THRESHHOLD c"
    and "thread \<in> set (readyPriorityList s)"
    and "is_int32 (totalTicks s - startReadyTime (threads s thread))"
    and "is_int32 (priority (threads s thread) + PRIORITY_AGING c)"
  shows "\<exists>s1 r s2. aging c PriorityList s = Inr s1 \<and> FindNextToRun c s = Inr (r, s2) \<and>
           r = (if readySJFList s1 \<noteq> [] then Some (hd (readySJFList s1))
                else if readyRRList s1 \<noteq> [] then Some (hd (readyRRList s1))
                else if readyPriorityList s1 \<noteq> [] then Some (hd (readyPriorityList s1))
                else None) \<and>
           (AGING_TICKS c \<le> totalTicks s - startReadyTime (threads s thread) \<longrightarrow>
              priority (threads s1 thread) = priority (threads s thread) + PRIORITY_AGING c \<and>
              startReadyTime (threads s1 thread) = totalTicks s \<and>
              thread \<in> set (getList (band c (priority (threads s1 thread))) s1) \<and>
              count_list (readySJFList s1 @ readyRRList s1 @ readyPriorityList s1) thread = 1) \<and>
           (totalTicks s - startReadyTime (threads s thread) < AGING_TICKS c \<longrightarrow>
              threads s1 thread = threads s thread \<and> thread \<in> set (readyPriorityList s1)) \<and>
           priority_ordered s1 (readyPriorityList s1)"
proof (rule aging_facts[OF assms(1,2)])
  fix s1
  assume r: "aging c PriorityList s = Inr s1"
    and A: "\<And>t. t \<in> set (readyPriorityList s) \<Longrightarrow> waited c s t \<Longrightarrow>
          priority (threads s1 t) = int32 (PRIORITY_AGING c + priority (threads s t)) \<and>
          startReadyTime (threads s1 t) = totalTicks s"
    and B: "\<And>t. \<not> (t \<in> set (readyPriorityList s) \<and> waited c s t) \<Longrightarrow>
          threads s1 t = threads s t"
    and C: "\<And>t. t \<in> set (readyPriorityList s) \<Longrightarrow> \<not> waited c s t \<Longrightarrow>
          t \<in> set (readyPriorityList s1)"
    and q: "queued s1 = queued s"
    and I: "sched_inv c s1"
    and O: "priority_ordered s (readyPriorityList s) \<Longrightarrow>
          priority_ordered s1 (readyPriorityList s1)"
  note inv1 = I[unfolded sched_inv_iff]
  have "thread \<in># queued s" using assms(5) by (simp add: queued_def)
  then have tq: "thread \<in># queued s1" by (simp only: q)
  then obtain l where l: "thread \<in> set (getList l s1)"
    unfolding queued_member ..
  then have "fits c l (priority (threads s1 thread))" using inv1 by blast
  then have "band c (priority (threads s1 thread)) = l" by (rule fits_band[OF assms(4)])
  then have 1: "thread \<in> set (getList (band c (priority (threads s1 thread))) s1)"
    using l by simp
  have 2: "count_list (readySJFList s1 @ readyRRList s1 @ readyPriorityList s1) thread = 1"
    using inv1 tq by (intro count_queued_distinct) simp_all
  have 3: "priority (threads s1 thread) = priority (threads s thread) + PRIORITY_AGING c \<and>
           startReadyTime (threads s1 thread) = totalTicks s"
    if "AGING_TICKS c \<le> totalTicks s - startReadyTime (threads s thread)"
    using A[OF assms(5)] that int32_id[OF assms(6)] int32_id[OF assms(7)]
    by (simp add: waited_def add.commute)
  have 4: "threads s1 thread = threads s thread \<and> thread \<in> set (readyPriorityList s1)"
    if "totalTicks s - startReadyTime (threads s thread) < AGING_TICKS c"
    using B[of thread] C[OF assms(5)] that int32_id[OF assms(6)] by (simp add: waited_def)
  have 5: "\<exists>r s2. FindNextToRun c s = Inr (r, s2) \<and>
           r = (if readySJFList s1 \<noteq> [] then Some (hd (readySJFList s1))
                else if readyRRList s1 \<noteq> [] then Some (hd (readyRRList s1))
                else if readyPriorityList s1 \<noteq> [] then Some (hd (readyPriorityList s1))
                else None)"
    using assms(1) by (simp add: FindNextToRun_def r IsEmpty_def)
  show ?thesis
    using r 1 2 3 4 5 O[OF assms(3)] by blast
qed

text \<open>
  An instance: at tick 1500 thread 5 has waited 1500 ticks and moves with priority 55
  to the Round-Robin queue; thread 6 has waited 500 ticks and is left as it was.
\<close>

theorem aging_boost_witness:
  "level demo_waiting = IntOff \<and> sched_inv c0 demo_waiting \<and>
   priority_ordered demo_waiting (readyPriorityList demo_waiting) \<and>
   readyPriorityList demo_waiting = [5, 6] \<and>
   is_int32 (totalTicks demo_waiting - startReadyTime (threads demo_waiting 5)) \<and>
   is_int32 (priority (threads demo_waiting 5) + PRIORITY_AGING c0) \<and>
   is_int32 (totalTicks demo_waiting - startReadyTime (threads demo_waiting 6)) \<and>
   is_int32 (priority (threads demo_waiting 6) + PRIORITY_AGING c0) \<and>
   (\<exists>s1. aging c0 PriorityList demo_waiting = Inr s1 \<and>
         priority (threads s1 5) = 55 \<and> startReadyTime (threads s1 5) = 1500 \<and>
         5 \<in> set (readyRRList s1) \<and>
         threads s1 6 = threads demo_waiting 6 \<and> 6 \<in> set (readyPriorityList s1))"
proof -
  note f = demo_waiting_fields
  have th: "PRI_SCHD_THRESHHOLD c0 \<le> SJF_SCHD_THRESHHOLD c0" by (simp add: c0_def)
  have m5: "5 \<in> set (readyPriorityList demo_waiting)"
    and m6: "6 \<in> set (readyPriorityList demo_waiting)"
    by (simp_all add: f)
  have w5: "AGING_TICKS c0 \<le> totalTicks demo_waiting - startReadyTime (threads demo_waiting 5)"
    and w6: "totalTicks demo_waiting - startReadyTime (threads demo_waiting 6) < AGING_TICKS c0"
    by (simp_all add: f c0_def)
  have r5: "is_int32 (totalTicks demo_waiting - startReadyTime (threads demo_waiting 5))"
      "is_int32 (priority (threads demo_waiting 5) + PRIORITY_AGING c0)"
    and r6: "is_int32 (totalTicks demo_waiting - startReadyTime (threads demo_waiting 6))"
      "is_int32 (priority (threads demo_waiting 6) + PRIORITY_AGING c0)"
    by (simp_all add: f c0_def is_int32_def)
  from aging_boost[OF f(1) demo_waiting_inv th m5 r5] w5 obtain s1 where
    a: "aging c0 PriorityList demo_waiting = Inr s1" and
    p: "priority (threads s1 5) = priority (threads demo_waiting 5) + PRIORITY_AGING c0" and
    t: "startReadyTime (threads s1 5) = totalTicks demo_waiting" and
    b: "5 \<in> set (getList (band c0 (priority (threads s1 5))) s1)"
    by blast
  from aging_boost[OF f(1) demo_waiting_inv th m6 r6] w6 obtain s1' where
    a': "aging c0 PriorityList demo_waiting = Inr s1'" and
    u: "threads s1' 6 = threads demo_waiting 6" "6 \<in> set (readyPriorityList s1')"
    by blast
  have e: "s1' = s1" using a a' by simp
  have p': "priority (threads s1 5) = 55" using p by (simp add: f c0_def)
  have "band c0 55 = RRList" by (simp add: band_def c0_def)
  then have b': "5 \<in> set (readyRRList s1)" using b by (simp add: p')
  have t': "startReadyTime (threads s1 5) = 1500" using t by (simp add: f)
  show ?thesis
    using f(1) demo_waiting_inv f(5) r5 r6 a p' t' b' u[unfolded e] by blast
qed

text \<open>
  C5. Threads admitted to the SJF band, starting from empty queues, are selected in
  ascending order of their burst estimate whatever the order of admission: admitting
  \<open>ts\<close> and calling \<^verbatim>\<open>FindNextToRun\<close> once per thread returns the threads in the
  order \<open>SJF_order\<close>, a permutation of \<open>ts\<close> sorted by burst estimate.
\<close>

theorem SJF_selection_order:
  assumes "level s = IntOff"
    and "readySJFList s = []" and "readyRRList s = []" and "readyPriorityList s = []"
    and "\<forall>t\<in>set ts. priority (threads s t) \<ge> SJF_SCHD_THRESHHOLD c"
  shows "\<exists>s1 s2. ReadyToRun_each c ts s = Inr s1 \<and>
           FindNextToRun_times c (length ts) s1 = Inr (map Some (SJF_order s ts), s2) \<and>
           mset (SJF_order s ts) = mset ts \<and>
           sorted (map (\<lambda>t. burstTime (threads s t)) (SJF_order s ts))"
proof -
  from ReadyToRun_each_SJF[OF assms(1,5)] obtain s1 where
    r: "ReadyToRun_each c ts s = Inr s1" and f: "level s1 = IntOff" and
    q: "readySJFList s1 = SJF_order s ts" and
    o: "readyRRList s1 = []" "readyPriorityList s1 = []" and
    p: "\<And>t. priority (threads s1 t) = priority (threads s t)"
    unfolding SJF_order_def using assms(2-4) by auto
  have m: "mset (SJF_order s ts) = mset ts"
    by (simp add: SJF_order_def foldl_Insert_mset)
  then have l: "length (SJF_order s ts) = length ts"
    by (rule mset_eq_length)
  have "set (SJF_order s ts) = set ts" using m by (rule mset_eq_setD)
  then have fit: "\<forall>t\<in>set (readySJFList s1). priority (threads s1 t) \<ge> SJF_SCHD_THRESHHOLD c"
    using assms(5) by (simp add: q p)
  have "FindNextToRun_times c (length (SJF_order s ts)) s1 =
          Inr (map Some (SJF_order s ts), s1\<lparr>readySJFList := []\<rparr>)"
    by (rule FindNextToRun_times_SJF[OF f o fit q])
  moreover have "sorted (map (\<lambda>t. burstTime (threads s t)) (SJF_order s ts))"
    unfolding SJF_order_def by (rule foldl_Insert_sorted) simp
  ultimately show ?thesis using r m l by auto
qed

text \<open>
  The scenario of the spec: threads 1, 2, 3 with burst estimates 5, 2, 8, admitted in
  that order, are returned in the order 2, 1, 3, that is by estimates 2, 5, 8.
\<close>

theorem SJF_selection_order_witness:
  "level (boot IntOff demo_threads) = IntOff \<and>
   (\<exists>s1 s2. ReadyToRun_each c0 [1, 2, 3] (boot IntOff demo_threads) = Inr s1 \<and>
            FindNextToRun_times c0 3 s1 = Inr ([Some 2, Some 1, Some 3], s2)) \<and>
   map (\<lambda>t. burstTime (demo_threads t)) [1, 2, 3] = [5, 2, 8]"
proof -
  have 1: "\<forall>t\<in>set [1, 2, 3].
            priority (threads (boot IntOff demo_threads) t) \<ge> SJF_SCHD_THRESHHOLD c0"
    by (simp add: demo_threads_def newThread_def c0_def)
  have 2: "SJF_order (boot IntOff demo_threads) [1, 2, 3] = [2, 1, 3]"
    by (simp add: SJF_order_def demo_threads_def newThread_def compare_by_burst_def)
  have 3: "map (\<lambda>t. burstTime (demo_threads t)) [1, 2, 3] = [5, 2, 8]"
    by (simp add: demo_threads_def newThread_def)
  have len: "length [1::nat, 2, 3] = 3" by simp
  from SJF_selection_order[OF boot_fields(4) boot_fields(7) boot_fields(5) boot_fields(6) 1]
  obtain s1 s2 where
    a: "ReadyToRun_each c0 [1, 2, 3] (boot IntOff demo_threads) = Inr s1" and
    b: "FindNextToRun_times c0 (length [1::nat, 2, 3]) s1 =
          Inr (map Some (SJF_order (boot IntOff demo_threads) [1, 2, 3]), s2)"
    by blast
  have "FindNextToRun_times c0 3 s1 = Inr ([Some 2, Some 1, Some 3], s2)"
    using b unfolding 2 len by (simp only: list.map)
  with a have "\<exists>s1 s2. ReadyToRun_each c0 [1, 2, 3] (boot IntOff demo_threads) = Inr s1 \<and>
            FindNextToRun_times c0 3 s1 = Inr ([Some 2, Some 1, Some 3], s2)"
    by blast
  with 3 show ?thesis
    by (simp only: boot_fields simp_thms)
qed

text \<open>
  C6, as the code has it. With interrupts enabled, \<^verbatim>\<open>ReadyToRun\<close> and
  \<^verbatim>\<open>FindNextToRun\<close> fail their assertion, and so does \<^verbatim>\<open>Run\<close> when \<open>nextThread\<close> is
  not the running thread; \<^verbatim>\<open>Run\<close> called with the running thread returns normally,
  with the state untouched, because its fast exit comes before the assertion. In no
  case is a queue or a thread object changed.
\<close>

theorem entry_points_interrupts_enabled:
  assumes "level s \<noteq> IntOff"
  shows "ReadyToRun c thread s = Inl AssertionFailed \<and>
         FindNextToRun c s = Inl AssertionFailed \<and>
         Run nextThread finishing s =
           (if nextThread = currentThread s then Inr s else Inl AssertionFailed)"
  using assms by (simp add: ReadyToRun_IntOn FindNextToRun_def Run_IntOn Run_def)

theorem entry_points_interrupts_enabled_witness:
  "level (boot IntOn demo_threads) \<noteq> IntOff \<and>
   ReadyToRun c0 1 (boot IntOn demo_threads) = Inl AssertionFailed \<and>
   FindNextToRun c0 (boot IntOn demo_threads) = Inl AssertionFailed \<and>
   Run 1 False (boot IntOn demo_threads) = Inl AssertionFailed"
proof -
  have 0: "level (boot IntOn demo_threads) \<noteq> IntOff" "currentThread (boot IntOn demo_threads) = 0"
    by (simp_all add: boot_def)
  show ?thesis
    using entry_points_interrupts_enabled[OF 0(1), of c0 1 1 False] 0 by simp
qed

text \<open>
  The claim C6 as stated fails for \<^verbatim>\<open>Run\<close>: called with interrupts enabled for the
  running thread, it triggers no assertion.
\<close>

theorem Run_interrupts_enabled_counterexample:
  "level (boot IntOn demo_threads) = IntOn \<and>
   currentThread (boot IntOn demo_threads) = 0 \<and>
   Run 0 False (boot IntOn demo_threads) \<noteq> Inl AssertionFailed"
  by (simp add: Run_def boot_def)

text \<open>
  C7, as the code has it. Whenever \<^verbatim>\<open>Run\<close> dispatches to a thread other than the
  running one, the burst estimate of the outgoing thread becomes the result of
  \<^verbatim>\<open>0.5 * (totalTicks - startBurst + burstTime)\<close> in machine arithmetic: the difference
  of the ticks is a 32-bit \<^verbatim>\<open>int\<close>, the sum with the previous estimate is rounded to
  binary64, and so is its half. The result is exactly half the sum of the burst just
  consumed and the previous estimate whenever the difference does not overflow and the
  sum has a significand of at most 53 bits (it is \<open>m * 2 ^ e\<close> with \<open>\<bar>m\<bar> < 2 ^ 53\<close> and
  \<open>e\<close> above the subnormal range). The \<open>startBurst\<close> of the incoming thread becomes the
  current tick. The call dispatches exactly when interrupts are disabled, the
  \<open>toBeDestroyed\<close> slot is free if \<open>finishing\<close> is set, and the outgoing stack has not
  overflowed.
\<close>

theorem Run_burst_estimate:
  assumes "nextThread \<noteq> currentThread s"
  shows "(\<forall>s'. Run nextThread finishing s = Inr s' \<longrightarrow>
            burstTime (threads s' (currentThread s)) =
              binary64 (0.5 *
                binary64 (real_of_int
                            (int32 (totalTicks s - startBurst (threads s (currentThread s))))
                          + burstTime (threads s (currentThread s)))) \<and>
            (\<forall>m e. is_int32 (totalTicks s - startBurst (threads s (currentThread s))) \<and>
                   real_of_int (totalTicks s - startBurst (threads s (currentThread s)))
                     + burstTime (threads s (currentThread s)) = of_int m * 2 powi e \<and>
                   \<bar>m\<bar> < 2 ^ 53 \<and> - 1073 \<le> e \<longrightarrow>
               burstTime (threads s' (currentThread s)) =
                 0.5 * (real_of_int (totalTicks s - startBurst (threads s (currentThread s)))
                        + burstTime (threads s (currentThread s)))) \<and>
            startBurst (threads s' nextThread) = totalTicks s \<and>
            currentThread s' = nextThread) \<and>
         ((\<exists>s'. Run nextThread finishing s = Inr s') \<longleftrightarrow>
            level s = IntOff \<and> (finishing \<longrightarrow> toBeDestroyed s = None) \<and>
            \<not> stackOverflowed (threads s (currentThread s)))"
proof (intro conjI allI impI)
  fix s' assume r: "Run nextThread finishing s = Inr s'"
  note d = Run_dispatch[OF assms r]
  show e: "burstTime (threads s' (currentThread s)) =
          binary64 (0.5 *
            binary64 (real_of_int
                        (int32 (totalTicks s - startBurst (threads s (currentThread s))))
                      + burstTime (threads s (currentThread s))))"
    using assms by (simp add: d(6))
  show "startBurst (threads s' nextThread) = totalTicks s"
    by (simp add: d(6))
  show "currentThread s' = nextThread" by (rule d(5))
  fix m e
  assume h: "is_int32 (totalTicks s - startBurst (threads s (currentThread s))) \<and>
             real_of_int (totalTicks s - startBurst (threads s (currentThread s)))
               + burstTime (threads s (currentThread s)) = of_int m * 2 powi e \<and>
             \<bar>m\<bar> < 2 ^ 53 \<and> - 1073 \<le> e"
  then have "int32 (totalTicks s - startBurst (threads s (currentThread s))) =
             totalTicks s - startBurst (threads s (currentThread s))"
    by (intro int32_id) simp
  then show "burstTime (threads s' (currentThread s)) =
          0.5 * (real_of_int (totalTicks s - startBurst (threads s (currentThread s)))
                 + burstTime (threads s (currentThread s)))"
    using h binary64_halved_sum[of _ m e] by (simp only: e)
next
  show "(\<exists>s'. Run nextThread finishing s = Inr s') \<longleftrightarrow>
            level s = IntOff \<and> (finishing \<longrightarrow> toBeDestroyed s = None) \<and>
            \<not> stackOverflowed (threads s (currentThread s))"
    using Run_total[OF assms, of finishing] Run_dispatch(1,2,3)[OF assms] by blast
qed

text \<open>
  An instance: thread 1 (estimate 5, burst started at tick 0) runs at tick 7 and
  thread 2 is dispatched; the sum \<open>7 + 5 = 12\<close> is a binary64 number and the new estimate
  of thread 1 is \<open>0.5 * (7 + 5) = 6\<close>.
\<close>

theorem Run_burst_estimate_witness:
  "(2::nat) \<noteq> currentThread demo_dispatch \<and>
   is_int32 (totalTicks demo_dispatch - startBurst (threads demo_dispatch 1)) \<and>
   real_of_int (totalTicks demo_dispatch - startBurst (threads demo_dispatch 1))
     + burstTime (threads demo_dispatch 1) = of_int 12 * 2 powi 0 \<and>
   (\<exists>s'. Run 2 False demo_dispatch = Inr s' \<and>
         burstTime (threads s' 1) = 6 \<and> startBurst (threads s' 2) = 7)"
proof -
  have 0: "currentThread demo_dispatch = 1" "level demo_dispatch = IntOff"
    "toBeDestroyed demo_dispatch = None"
    "\<not> stackOverflowed (threads demo_dispatch 1)" "totalTicks demo_dispatch = 7"
    "startBurst (threads demo_dispatch 1) = 0" "burstTime (threads demo_dispatch 1) = 5"
    by (simp_all add: demo_dispatch_def boot_def demo_threads_def newThread_def)
  have n: "(2::nat) \<noteq> currentThread demo_dispatch" using 0 by simp
  note t = Run_burst_estimate[OF n, of False]
  have "level demo_dispatch = IntOff \<and> (False \<longrightarrow> toBeDestroyed demo_dispatch = None) \<and>
        \<not> stackOverflowed (threads demo_dispatch (currentThread demo_dispatch))"
    using 0 by simp
  with t have "\<exists>s'. Run 2 False demo_dispatch = Inr s'"
    by blast
  then obtain s' where r: "Run 2 False demo_dispatch = Inr s'" ..
  have i: "is_int32 (totalTicks demo_dispatch - startBurst (threads demo_dispatch 1))"
    and x: "real_of_int (totalTicks demo_dispatch - startBurst (threads demo_dispatch 1))
            + burstTime (threads demo_dispatch 1) = of_int 12 * 2 powi 0"
    using 0 by (simp_all add: is_int32_def)
  have "is_int32 (totalTicks demo_dispatch
            - startBurst (threads demo_dispatch (currentThread demo_dispatch))) \<and>
        real_of_int (totalTicks demo_dispatch
            - startBurst (threads demo_dispatch (currentThread demo_dispatch)))
          + burstTime (threads demo_dispatch (currentThread demo_dispatch))
        = of_int 12 * 2 powi 0 \<and> \<bar>12::int\<bar> < 2 ^ 53 \<and> - 1073 \<le> (0::int)"
    using i x by (simp add: 0(1))
  with t r have "burstTime (threads s' (currentThread demo_dispatch)) =
              0.5 * (real_of_int (totalTicks demo_dispatch
                       - startBurst (threads demo_dispatch (currentThread demo_dispatch)))
                     + burstTime (threads demo_dispatch (currentThread demo_dispatch)))"
    and "startBurst (threads s' 2) = totalTicks demo_dispatch"
    by blast+
  then have "burstTime (threads s' 1) = 6" "startBurst (threads s' 2) = 7"
    using 0 by simp_all
  then show ?thesis using n r i x by blast
qed

text \<open>
  The claim C7 as stated, an exact equation between real numbers, fails on the code:
  the estimate is a \<^verbatim>\<open>double\<close>. Thread 4 starts with the estimate 0 and consumes
  bursts of one tick. After 53 of them its estimate is \<open>1 - 1 / 2 ^ 53\<close>, every result up
  to there being a binary64 number. At the next switch, at tick 54, the sum
  \<open>1 + (1 - 1 / 2 ^ 53)\<close> needs 54 significant bits and is rounded to 2, so the new
  estimate is 1 and not \<open>0.5 * ((54 - 53) + (1 - 1 / 2 ^ 53)) = 1 - 1 / 2 ^ 54\<close>.
\<close>

theorem Run_burst_estimate_counterexample:
  "\<not> isl demo_rounding \<and> currentThread (projr demo_rounding) = 4 \<and>
   level (projr demo_rounding) = IntOff \<and> totalTicks (projr demo_rounding) = 53 \<and>
   startBurst (threads (projr demo_rounding) 4) = 53 \<and>
   burstTime (threads (projr demo_rounding) 4) = 1 - 1 / 2 ^ 53 \<and>
   \<not> isl demo_rounded \<and> burstTime (threads (projr demo_rounded) 4) = 1 \<and>
   0.5 * (real_of_int (54 - startBurst (threads (projr demo_rounding) 4))
          + burstTime (threads (projr demo_rounding) 4)) = 1 - 1 / 2 ^ 54 \<and>
   burstTime (threads (projr demo_rounded) 4) \<noteq>
     0.5 * (real_of_int (54 - startBurst (threads (projr demo_rounding) 4))
            + burstTime (threads (projr demo_rounding) 4))"
proof -
  let ?b = "boot IntOff demo_threads\<lparr>currentThread := 4\<rparr>"
  have "\<exists>s'. one_tick_bursts 4 5 53 ?b = Inr s' \<and> currentThread s' = 4 \<and>
              level s' = IntOff \<and> \<not> stackOverflowed (threads s' 4) \<and>
              \<not> stackOverflowed (threads s' 5) \<and>
              startBurst (threads s' 4) = totalTicks s' \<and>
              totalTicks s' = totalTicks ?b + int 53 \<and>
              burstTime (threads s' 4) = 1 - 1 / 2 ^ (0 + 53)"
    by (rule one_tick_bursts_estimate)
       (simp_all add: boot_def demo_threads_def newThread_def)
  then obtain s where s: "demo_rounding = Inr s" "currentThread s = 4" "level s = IntOff"
      "\<not> stackOverflowed (threads s 4)" "startBurst (threads s 4) = 53"
      "totalTicks s = 53" "burstTime (threads s 4) = 1 - 1 / 2 ^ 53"
    by (auto simp: demo_rounding_def boot_def)
  let ?s = "s\<lparr>totalTicks := totalTicks s + 1\<rparr>"
  have n: "5 \<noteq> currentThread ?s" by (simp add: s)
  obtain s' where r: "Run 5 False ?s = Inr s'"
    using Run_total[OF n, of False] s by auto
  have d: "demo_rounded = Inr s'" by (simp add: demo_rounded_def s(1) r)
  have "int32 (53 + 1 - 53) = 1" by (simp add: int32_def)
  then have "burstTime (threads s' 4) = binary64 (0.5 * binary64 (1 + (1 - 1 / 2 ^ 53)))"
    using Run_dispatch(6)[OF n r] by (simp add: s)
  then have e: "burstTime (threads s' 4) = 1"
    using binary64_small_ints(1) by (simp only: binary64_tie_example) simp
  have x: "0.5 * (real_of_int (54 - startBurst (threads s 4)) + burstTime (threads s 4))
        = 1 - 1 / 2 ^ 54"
    by (simp add: s)
  have y: "(1::real) \<noteq> 1 - 1 / 2 ^ 54" by simp
  show ?thesis
    unfolding s(1) d sum.sel sum.disc
    using s(2,3,5,6,7) e x y by (simp only:) simp
qed

text \<open>
  C8. \<^verbatim>\<open>Run\<close> called with the currently running thread as \<open>nextThread\<close> returns the
  state it was given, whatever the flag \<open>finishing\<close>: no queue, thread object,
  current-thread pointer or \<open>toBeDestroyed\<close> slot changes, and nothing is handed to
  \<^verbatim>\<open>SWITCH\<close> (the console of events is part of the state).
\<close>

theorem Run_same_thread_noop: "Run (currentThread s) finishing s = Inr s"
  by (simp add: Run_def)

text \<open>
  C9. With \<open>nextThread\<close> the currently running thread and \<open>finishing\<close> set, the fast
  exit comes before the interrupt-level assertion and before the finishing logic: the
  call returns normally in every state, also with interrupts enabled and also with an
  occupied \<open>toBeDestroyed\<close> slot, and leaves the slot as it was. For any other
  \<open>nextThread\<close> the same call fails its assertion when interrupts are enabled, and
  records the outgoing thread in \<open>toBeDestroyed\<close> when it dispatches.
\<close>

theorem Run_fast_exit_precedes_checks:
  "(\<exists>s'. Run (currentThread s) True s = Inr s' \<and> toBeDestroyed s' = toBeDestroyed s \<and>
          console s' = console s) \<and>
   (nextThread \<noteq> currentThread s \<and> level s \<noteq> IntOff \<longrightarrow>
      Run nextThread True s = Inl AssertionFailed) \<and>
   (nextThread \<noteq> currentThread s \<and> level s = IntOff \<and> toBeDestroyed s = None \<and>
    \<not> stackOverflowed (threads s (currentThread s)) \<longrightarrow>
      (\<exists>s'. Run nextThread True s = Inr s' \<and> toBeDestroyed s' = Some (currentThread s)))"
proof (intro conjI impI)
  show "\<exists>s'. Run (currentThread s) True s = Inr s' \<and> toBeDestroyed s' = toBeDestroyed s \<and>
          console s' = console s"
    by (simp add: Run_def)
next
  assume "nextThread \<noteq> currentThread s \<and> level s \<noteq> IntOff"
  then show "Run nextThread True s = Inl AssertionFailed"
    by (simp add: Run_IntOn)
next
  assume a: "nextThread \<noteq> currentThread s \<and> level s = IntOff \<and> toBeDestroyed s = None \<and>
    \<not> stackOverflowed (threads s (currentThread s))"
  then obtain s' where r: "Run nextThread True s = Inr s'"
    using Run_total[of nextThread s True] by auto
  have "toBeDestroyed s' = Some (currentThread s)"
    using Run_dispatch(4)[OF _ r] a by simp
  then show "\<exists>s'. Run nextThread True s = Inr s' \<and> toBeDestroyed s' = Some (currentThread s)"
    using r by simp
qed

text \<open>
  Instances: with interrupts enabled the call for the running thread 0 returns while
  the call for thread 1 fails; with interrupts disabled the call for thread 1 records
  thread 0 for destruction.
\<close>

theorem Run_fast_exit_precedes_checks_witness:
  "level (boot IntOn demo_threads) = IntOn \<and>
   Run 0 True (boot IntOn demo_threads) = Inr (boot IntOn demo_threads) \<and>
   Run 1 True (boot IntOn demo_threads) = Inl AssertionFailed \<and>
   (\<exists>s'. Run 1 True (boot IntOff demo_threads) = Inr s' \<and> toBeDestroyed s' = Some 0)"
proof -
  have 0: "currentThread (boot lv demo_threads) = 0" "level (boot lv demo_threads) = lv"
    "toBeDestroyed (boot lv demo_threads) = None"
    "\<not> stackOverflowed (threads (boot lv demo_threads) 0)" for lv
    by (simp_all add: boot_def demo_threads_def newThread_def)
  have 1: "Run 0 True (boot IntOn demo_threads) = Inr (boot IntOn demo_threads)"
    by (simp add: Run_def 0)
  show ?thesis
    using Run_fast_exit_precedes_checks[of "boot IntOn demo_threads" 1]
      Run_fast_exit_precedes_checks[of "boot IntOff demo_threads" 1] 0 1
    by simp
qed

text \<open>
  C10. \<^verbatim>\<open>ReadyToRun\<close> checks neither the status of the thread nor whether a queue
  already holds it: with interrupts disabled it always returns, and the queue implied
  by the thread's priority holds one more reference to the thread than before, so a
  thread that was queued occupies two positions afterwards.
\<close>

theorem ReadyToRun_second_reference:
  assumes "level s = IntOff"
  shows "\<exists>s'. ReadyToRun c thread s = Inr s' \<and>
           count_list (readySJFList s') thread =
             count_list (readySJFList s) thread
               + (if priority (threads s thread) \<ge> SJF_SCHD_THRESHHOLD c then 1 else 0) \<and>
           count_list (readyRRList s') thread =
             count_list (readyRRList s) thread
               + (if priority (threads s thread) < SJF_SCHD_THRESHHOLD c \<and>
                     priority (threads s thread) \<ge> PRI_SCHD_THRESHHOLD c then 1 else 0) \<and>
           count_list (readyPriorityList s') thread =
             count_list (readyPriorityList s) thread
               + (if priority (threads s thread) < SJF_SCHD_THRESHHOLD c \<and>
                     priority (threads s thread) < PRI_SCHD_THRESHHOLD c then 1 else 0) \<and>
           count_list (readySJFList s' @ readyRRList s' @ readyPriorityList s') thread =
             count_list (readySJFList s @ readyRRList s @ readyPriorityList s) thread + 1"
proof -
  from ReadyToRun_total[OF assms, of c thread] obtain s' where
    r: "ReadyToRun c thread s = Inr s'" ..
  have m: "count_list (getList l s') thread =
             count_list (getList l s) thread
               + (if l = band c (priority (threads s thread)) then 1 else 0)" for l
    using ReadyToRun_mset[OF r, of l] by (simp flip: count_mset)
  show ?thesis
    using r m[of SJFList] m[of RRList] m[of PriorityList]
    by (intro exI[of _ s']) (auto simp: band_def)
qed

text \<open>An instance: thread 4, already in the Round-Robin queue, is in it twice.\<close>

theorem ReadyToRun_second_reference_witness:
  "level (boot IntOff demo_threads\<lparr>readyRRList := [4]\<rparr>) = IntOff \<and>
   (\<exists>s'. ReadyToRun c0 4 (boot IntOff demo_threads\<lparr>readyRRList := [4]\<rparr>) = Inr s' \<and>
         count_list (readyRRList s') 4 = 2)"
  using ReadyToRun_second_reference[of "boot IntOff demo_threads\<lparr>readyRRList := [4]\<rparr>" c0 4]
  by (auto simp: boot_def demo_threads_def newThread_def c0_def)

end
